theory Spec2Isabelle
  imports Main "HOL-Library.Sublist"
begin

section \<open>Python strings\<close>

text \<open>
  A Python \<open>str\<close> is modelled as a \<open>string\<close>, one \<open>char\<close> per code point, which covers the
  code points 0 to 255. On that range the case mappings of Python only move the ASCII
  letters into the ASCII letters, so \<open>upper\<close> and the \<open>IGNORECASE\<close> flag are modelled on
  the ASCII letters; the other characters are left alone (none of them can take part in a
  match of the ASCII patterns of the two scripts). On the same range the class \<open>\d\<close> holds
  the ten ASCII digits, which are also the digits \<open>int\<close> reads. Integers are unbounded;
  only their conversion from and to decimal text is limited.
\<close>

definition code :: "char \<Rightarrow> nat" where
  "code c = of_char c"

definition newline :: char where
  "newline = CHR 0x0A"

definition is_upper :: "char \<Rightarrow> bool" where
  "is_upper c = (65 \<le> code c \<and> code c \<le> 90)"

definition is_lower :: "char \<Rightarrow> bool" where
  "is_lower c = (97 \<le> code c \<and> code c \<le> 122)"

definition lower_ch :: "char \<Rightarrow> char" where
  "lower_ch c = (if is_upper c then char_of (code c + 32) else c)"

definition upper_ch :: "char \<Rightarrow> char" where
  "upper_ch c = (if is_lower c then char_of (code c - 32) else c)"

text \<open>\<open>str.upper()\<close>.\<close>

definition upper :: "string \<Rightarrow> string" where
  "upper s = map upper_ch s"

text \<open>\<open>str.isspace()\<close> on one character, which is also the class \<open>\s\<close> of \<open>re\<close>.\<close>

definition is_space :: "char \<Rightarrow> bool" where
  "is_space c = (c \<in> set [CHR 0x09, CHR 0x0A, CHR 0x0B, CHR 0x0C, CHR 0x0D,
                           CHR 0x1C, CHR 0x1D, CHR 0x1E, CHR 0x1F, CHR 0x20,
                           CHR 0x85, CHR 0xA0])"

text \<open>The class \<open>\d\<close> of \<open>re\<close>, and the digits \<open>int()\<close> reads.\<close>

definition is_digit :: "char \<Rightarrow> bool" where
  "is_digit c = (48 \<le> code c \<and> code c \<le> 57)"

text \<open>\<open>str.strip()\<close> without argument.\<close>

definition lstrip :: "string \<Rightarrow> string" where
  "lstrip s = dropWhile is_space s"

definition rstrip :: "string \<Rightarrow> string" where
  "rstrip s = rev (dropWhile is_space (rev s))"

definition strip :: "string \<Rightarrow> string" where
  "strip s = rstrip (lstrip s)"

text \<open>\<open>str.startswith(p)\<close> and \<open>p in s\<close>.\<close>

definition startswith :: "string \<Rightarrow> string \<Rightarrow> bool" where
  "startswith s p = prefix p s"

definition contains :: "string \<Rightarrow> string \<Rightarrow> bool" where
  "contains s p = sublist p s"

text \<open>
  \<open>s.split(sep)\<close> for a separator of one character: the pieces between the separators, one
  more than there are separators, so never the empty list.
\<close>

fun split_on :: "char \<Rightarrow> string \<Rightarrow> string list" where
  "split_on sep [] = [[]]"
| "split_on sep (c # cs) =
     (if c = sep then [] # split_on sep cs
      else (case split_on sep cs of
              [] \<Rightarrow> [[c]]
            | p # ps \<Rightarrow> (c # p) # ps))"

text \<open>\<open>sep.join(xs)\<close>.\<close>

fun join :: "string \<Rightarrow> string list \<Rightarrow> string" where
  "join sep [] = []"
| "join sep [x] = x"
| "join sep (x # y # ys) = x @ sep @ join sep (y # ys)"

section \<open>Regular expressions of the module \<open>re\<close>\<close>

text \<open>
  The constructs the scripts use. \<open>Cls\<close> is a bracket class given by its ranges (a single
  character is the range from it to itself). \<open>Bol\<close> is \<open>^\<close> and \<open>Eol\<close> is \<open>$\<close>.
\<close>

datatype regex =
    Lit char
  | Dot
  | Digit
  | Space
  | Cls "(char \<times> char) list"
  | Bol
  | Eol
  | Eps
  | Seq regex regex
  | Alt regex regex
  | Opt regex
  | Star regex
  | Plus regex

text \<open>A literal string, and the concatenation and the alternation of a list.\<close>

fun lits :: "string \<Rightarrow> regex" where
  "lits [] = Eps"
| "lits (c # cs) = Seq (Lit c) (lits cs)"

fun seqs :: "regex list \<Rightarrow> regex" where
  "seqs [] = Eps"
| "seqs (r # rs) = Seq r (seqs rs)"

fun alts :: "regex list \<Rightarrow> regex" where
  "alts [] = Cls []"
| "alts [r] = r"
| "alts (r # rs) = Alt r (alts rs)"

text \<open>One character against a literal and against a class, with the flag \<open>IGNORECASE\<close>.\<close>

definition lit_ok :: "bool \<Rightarrow> char \<Rightarrow> char \<Rightarrow> bool" where
  "lit_ok ic c x = (if ic then lower_ch x = lower_ch c else x = c)"

definition in_ranges :: "(char \<times> char) list \<Rightarrow> char \<Rightarrow> bool" where
  "in_ranges rs x = list_ex (\<lambda>(lo, hi). code lo \<le> code x \<and> code x \<le> code hi) rs"

definition cls_ok :: "bool \<Rightarrow> (char \<times> char) list \<Rightarrow> char \<Rightarrow> bool" where
  "cls_ok ic rs x =
     (if ic then in_ranges rs x \<or> in_ranges rs (lower_ch x) \<or> in_ranges rs (upper_ch x)
      else in_ranges rs x)"

text \<open>A construct that takes one character: what remains after it, if it fits.\<close>

definition one :: "(char \<Rightarrow> bool) \<Rightarrow> string \<Rightarrow> string list" where
  "one P s = (case s of [] \<Rightarrow> [] | x # xs \<Rightarrow> if P x then [xs] else [])"

text \<open>
  Zero or more rounds of a matcher \<open>f\<close>. A round that consumes nothing adds no new position,
  so only the shorter remainders go on, and the length of the text bounds the rounds.
\<close>

fun star :: "nat \<Rightarrow> (string \<Rightarrow> string list) \<Rightarrow> string \<Rightarrow> string list" where
  "star 0 f s = [s]"
| "star (Suc k) f s =
     s # concat (map (star k f) (filter (\<lambda>t. length t < length s) (f s)))"

text \<open>
  \<open>rems ic n r s\<close> lists what can remain of \<open>s\<close> after \<open>r\<close> has matched at its start, in a
  text of \<open>n\<close> characters (\<open>^\<close> holds where all \<open>n\<close> remain; \<open>$\<close> holds at the end and before
  a last line break). \<open>ic\<close> is the flag \<open>IGNORECASE\<close>.
\<close>

fun rems :: "bool \<Rightarrow> nat \<Rightarrow> regex \<Rightarrow> string \<Rightarrow> string list" where
  "rems ic n (Lit c) s = one (lit_ok ic c) s"
| "rems ic n Dot s = one (\<lambda>x. x \<noteq> newline) s"
| "rems ic n Digit s = one is_digit s"
| "rems ic n Space s = one is_space s"
| "rems ic n (Cls rs) s = one (cls_ok ic rs) s"
| "rems ic n Bol s = (if length s = n then [s] else [])"
| "rems ic n Eol s = (if s = [] \<or> s = [newline] then [s] else [])"
| "rems ic n Eps s = [s]"
| "rems ic n (Seq a b) s = concat (map (rems ic n b) (rems ic n a s))"
| "rems ic n (Alt a b) s = rems ic n a s @ rems ic n b s"
| "rems ic n (Opt a) s = rems ic n a s @ [s]"
| "rems ic n (Star a) s = star (length s) (rems ic n a) s"
| "rems ic n (Plus a) s = concat (map (\<lambda>t. star (length t) (rems ic n a) t) (rems ic n a s))"

text \<open>\<open>re.match(r, s)\<close> and \<open>re.match(r, s, re.IGNORECASE)\<close> as truth values.\<close>

definition re_match :: "bool \<Rightarrow> regex \<Rightarrow> string \<Rightarrow> bool" where
  "re_match ic r s = (rems ic (length s) r s \<noteq> [])"

section \<open>\<open>bump_version.py\<close>: the commit classifier\<close>

text \<open>
  The two lists of patterns of \<open>analyze_commits\<close>: \<open>^BREAKING CHANGE:\<close>, \<open>^feat.*!:\<close>,
  \<open>^fix.*!:\<close> and \<open>^feat(\(.+\))?:\<close>, \<open>^fix(\(.+\))?:\<close>.
\<close>

definition breaking_patterns :: "regex list" where
  "breaking_patterns =
     [seqs [Bol, lits ''BREAKING CHANGE:''],
      seqs [Bol, lits ''feat'', Star Dot, lits ''!:''],
      seqs [Bol, lits ''fix'', Star Dot, lits ''!:'']]"

definition feature_fix_patterns :: "regex list" where
  "feature_fix_patterns =
     [seqs [Bol, lits ''feat'', Opt (seqs [Lit CHR ''('', Plus Dot, Lit CHR '')'']), Lit CHR '':''],
      seqs [Bol, lits ''fix'', Opt (seqs [Lit CHR ''('', Plus Dot, Lit CHR '')'']), Lit CHR '':'']]"

text \<open>The two tests of the loop body that set \<open>has_breaking\<close>, and the one that sets
  \<open>has_feature_or_fix\<close>.\<close>

definition is_breaking :: "string \<Rightarrow> bool" where
  "is_breaking commit =
     (list_ex (\<lambda>pattern. re_match True pattern commit) breaking_patterns
      \<or> contains (upper commit) ''BREAKING CHANGE'')"

definition is_feature_or_fix :: "string \<Rightarrow> bool" where
  "is_feature_or_fix commit =
     list_ex (\<lambda>pattern. re_match True pattern commit) feature_fix_patterns"

text \<open>
  The state of the \<open>for\<close> loop when it ends: the two flags, and the commits the loop has
  not visited (\<open>break\<close> leaves the rest of the list unvisited).
\<close>

record scan =
  has_breaking :: bool
  has_feature_or_fix :: bool
  unvisited :: "string list"

fun scan_commits :: "string list \<Rightarrow> bool \<Rightarrow> scan" where
  "scan_commits [] hf = \<lparr>has_breaking = False, has_feature_or_fix = hf, unvisited = []\<rparr>"
| "scan_commits (commit # commits) hf =
     (if list_ex (\<lambda>pattern. re_match True pattern commit) breaking_patterns
      then \<lparr>has_breaking = True, has_feature_or_fix = hf, unvisited = commits\<rparr>
      else if contains (upper commit) ''BREAKING CHANGE''
      then \<lparr>has_breaking = True, has_feature_or_fix = hf, unvisited = commits\<rparr>
      else if list_ex (\<lambda>pattern. re_match True pattern commit) feature_fix_patterns
      then scan_commits commits True
      else scan_commits commits hf)"

definition analyze_commits :: "string list \<Rightarrow> string" where
  "analyze_commits commits =
     (let st = scan_commits commits False
      in if has_breaking st then ''major''
         else if has_feature_or_fix st then ''minor''
         else ''none'')"

section \<open>\<open>bump_version.py\<close>: version arithmetic\<close>

datatype error = ValueError

text \<open>
  The conversions between integers and decimal texts refuse more than 4300 digits: the
  limit of CPython (\<open>sys.int_info.default_max_str_digits\<close>), which the script leaves at its
  default. Both \<open>int\<close> on a text and the f-string on an integer raise \<open>ValueError\<close> beyond
  it.
\<close>

definition max_str_digits :: nat where
  "max_str_digits = 4300"

text \<open>
  \<open>int(s)\<close> on a string: white space around is dropped, then an optional sign, then decimal
  digits, where single underscores may stand between digits. Anything else raises
  \<open>ValueError\<close>, and so do more digits than the limit. The white space \<open>int\<close> drops is that
  of \<open>str.isspace\<close> except the four separators U+001C to U+001F, which it does not accept.
\<close>

definition is_int_space :: "char \<Rightarrow> bool" where
  "is_int_space c = (c \<in> set [CHR 0x09, CHR 0x0A, CHR 0x0B, CHR 0x0C, CHR 0x0D, CHR 0x20,
                               CHR 0x85, CHR 0xA0])"

definition int_strip :: "string \<Rightarrow> string" where
  "int_strip s = rev (dropWhile is_int_space (rev (dropWhile is_int_space s)))"

fun grouped :: "string \<Rightarrow> bool" where
  "grouped [] = False"
| "grouped [c] = is_digit c"
| "grouped (c # d # r) =
     (is_digit c \<and> (if d = CHR ''_'' then grouped r else grouped (d # r)))"

definition digit_val :: "char \<Rightarrow> nat" where
  "digit_val c = code c - 48"

definition digits_nat :: "string \<Rightarrow> nat" where
  "digits_nat ds = foldl (\<lambda>a c. 10 * a + digit_val c) 0 ds"

definition int_digits :: "string \<Rightarrow> error + int" where
  "int_digits r =
     (if grouped r
      then (let ds = filter (\<lambda>c. c \<noteq> CHR ''_'') r
            in if max_str_digits < length ds then Inl ValueError
               else Inr (int (digits_nat ds)))
      else Inl ValueError)"

definition py_int :: "string \<Rightarrow> error + int" where
  "py_int s =
     (case int_strip s of
        [] \<Rightarrow> Inl ValueError
      | c # r \<Rightarrow>
          if c = CHR ''-'' then (case int_digits r of Inl e \<Rightarrow> Inl e | Inr v \<Rightarrow> Inr (- v))
          else if c = CHR ''+'' then int_digits r
          else int_digits (c # r))"

text \<open>
  \<open>str(n)\<close> on an integer, as the f-string writes it: the decimal digits, after a minus sign
  for a negative number; \<open>ValueError\<close> when there are more digits than the limit.
\<close>

definition digit_char :: "nat \<Rightarrow> char" where
  "digit_char d = char_of (48 + d)"

fun str_nat :: "nat \<Rightarrow> string" where
  "str_nat n = (if n < 10 then [digit_char n] else str_nat (n div 10) @ [digit_char (n mod 10)])"

definition str_int :: "int \<Rightarrow> error + string" where
  "str_int i =
     (let ds = str_nat (nat \<bar>i\<bar>)
      in if max_str_digits < length ds then Inl ValueError
         else Inr (if i < 0 then CHR ''-'' # ds else ds))"

text \<open>
  The first line of \<open>bump_version\<close>, \<open>major, minor = map(int, current_version.split('.'))\<close>:
  it raises \<open>ValueError\<close> unless there are exactly two pieces and \<open>int\<close> reads both.
\<close>

definition parse_version :: "string \<Rightarrow> error + (int \<times> int)" where
  "parse_version current_version =
     (case split_on CHR ''.'' current_version of
        [a, b] \<Rightarrow>
          (case py_int a of
             Inl e \<Rightarrow> Inl e
           | Inr major \<Rightarrow>
               (case py_int b of Inl e \<Rightarrow> Inl e | Inr minor \<Rightarrow> Inr (major, minor)))
      | _ \<Rightarrow> Inl ValueError)"

text \<open>The last line of \<open>bump_version\<close>, the f-string \<open>{major}.{minor}\<close>: it raises when one of
  the two conversions does.\<close>

definition serialize_version :: "int \<times> int \<Rightarrow> error + string" where
  "serialize_version v =
     (case str_int (fst v) of
        Inl e \<Rightarrow> Inl e
      | Inr a \<Rightarrow> (case str_int (snd v) of Inl e \<Rightarrow> Inl e | Inr b \<Rightarrow> Inr (a @ ''.'' @ b)))"

definition bump_version :: "string \<Rightarrow> string \<Rightarrow> error + string" where
  "bump_version current_version bump_type =
     (case parse_version current_version of
        Inl e \<Rightarrow> Inl e
      | Inr (major, minor) \<Rightarrow>
          if bump_type = ''major'' then serialize_version (major + 1, 0)
          else if bump_type = ''minor'' then serialize_version (major, minor + 1)
          else Inr current_version)"

section \<open>\<open>bump_version.py\<close>: files, changelog and \<open>main\<close>\<close>

text \<open>
  The files the script reads and writes: a map from a path to the text of the file, absent
  when the file does not exist. What is written to the diagnostic stream by \<open>info\<close> is not
  modelled; the lines printed to the standard output are.
\<close>

type_synonym files = "string \<rightharpoonup> string"

text \<open>How a run stops early: \<open>sys.exit(n)\<close>, or an exception nobody catches (status 1).\<close>

datatype stop = SysExit nat | Uncaught error

fun exit_status :: "stop \<Rightarrow> nat" where
  "exit_status (SysExit n) = n"
| "exit_status (Uncaught e) = 1"

text \<open>The pattern \<open>^\d+\.\d+$\<close> of \<open>read_current_version\<close> and of the manual override.\<close>

definition version_pattern :: regex where
  "version_pattern = seqs [Bol, Plus Digit, Lit CHR ''.'', Plus Digit, Eol]"

definition read_current_version :: "files \<Rightarrow> string \<Rightarrow> stop + string" where
  "read_current_version fs version_file_path =
     (case fs version_file_path of
        None \<Rightarrow> Inl (SysExit 1)
      | Some text \<Rightarrow>
          (let version = strip text
           in if \<not> re_match False version_pattern version then Inl (SysExit 1)
              else Inr version))"

definition write_version :: "string \<Rightarrow> string \<Rightarrow> files \<Rightarrow> files" where
  "write_version new_version version_file_path fs =
     fs(version_file_path \<mapsto> new_version @ [newline])"

text \<open>The entry \<open>update_changelog\<close> builds; \<open>today\<close> is the date as \<open>%Y-%m-%d\<close>.\<close>

definition new_entry :: "string \<Rightarrow> string \<Rightarrow> string \<Rightarrow> string" where
  "new_entry new_version bump_type today =
     ''## ['' @ new_version @ ''] - '' @ today @ [newline, newline]
     @ ''### Added'' @ [newline]
     @ ''- Automated version bump ('' @ bump_type @ '')'' @ [newline, newline]
     @ ''### Changed'' @ [newline]
     @ ''- See commit history for detailed changes'' @ [newline, newline]
     @ ''---'' @ [newline, newline]"

text \<open>
  The loop over \<open>enumerate(lines)\<close>: the first line, among those of index below 20, whose
  stripped text is \<open>---\<close> gives the index two further; \<open>None\<close> when there is none.
\<close>

fun find_insert_index :: "string list \<Rightarrow> nat \<Rightarrow> nat option" where
  "find_insert_index [] i = None"
| "find_insert_index (line # lines) i =
     (if strip line = ''---'' \<and> i < 20 then Some (i + 2)
      else find_insert_index lines (i + 1))"

text \<open>\<open>lines.insert(i, x)\<close> for an index that is not negative: at the end when \<open>i\<close> is beyond it.\<close>

definition list_insert :: "nat \<Rightarrow> 'a \<Rightarrow> 'a list \<Rightarrow> 'a list" where
  "list_insert i x xs = take i xs @ [x] @ drop i xs"

definition update_changelog ::
  "string \<Rightarrow> string \<Rightarrow> string \<Rightarrow> string \<Rightarrow> files \<Rightarrow> files" where
  "update_changelog new_version bump_type today changelog_file_path fs =
     (case fs changelog_file_path of
        None \<Rightarrow> fs
      | Some changelog_content \<Rightarrow>
          if contains changelog_content (''## ['' @ new_version @ '']'') then fs
          else (let lines = split_on newline changelog_content
                in case find_insert_index lines 0 of
                     None \<Rightarrow> fs
                   | Some insert_index \<Rightarrow>
                       if insert_index \<noteq> 0
                       then fs(changelog_file_path \<mapsto>
                              join [newline]
                                (list_insert insert_index
                                   (new_entry new_version bump_type today) lines))
                       else fs))"

text \<open>
  What the run does not decide itself: the two calls of git (the status and the output of
  \<open>git describe\<close>; the output of \<open>git log\<close> for a range, \<open>None\<close> when it fails), the date, whether
  \<open>tools/version_sync.py\<close> exists, and what running it on a version file does to the files and
  whether it succeeds.
\<close>

record env =
  git_describe :: "nat \<times> string"
  git_log :: "string option \<Rightarrow> string option"
  today :: string
  sync_script_exists :: bool
  sync_run :: "string \<Rightarrow> files \<Rightarrow> bool \<times> files"

definition get_git_commits_since_last_tag :: "env \<Rightarrow> string list" where
  "get_git_commits_since_last_tag e =
     (let last_tag = (if fst (git_describe e) = 0 then Some (strip (snd (git_describe e)))
                      else None);
          result = (case last_tag of
                      None \<Rightarrow> git_log e None
                    | Some t \<Rightarrow> if t \<noteq> [] then git_log e (Some t) else git_log e None)
      in case result of
           None \<Rightarrow> []
         | Some out \<Rightarrow> if out \<noteq> [] then split_on newline (strip out) else [])"

text \<open>\<open>run_version_sync\<close>: the files afterwards, and the exit when the script fails.\<close>

definition run_version_sync :: "env \<Rightarrow> string \<Rightarrow> files \<Rightarrow> files \<times> stop option" where
  "run_version_sync e version_file_path fs =
     (if \<not> sync_script_exists e then (fs, None)
      else (case sync_run e version_file_path fs of
              (True, fs') \<Rightarrow> (fs', None)
            | (False, fs') \<Rightarrow> (fs', Some (SysExit 1))))"

text \<open>The arguments \<open>argparse\<close> delivers; \<open>--type\<close> has three choices.\<close>

datatype type_choice = Auto | Major | Minor

fun type_name :: "type_choice \<Rightarrow> string" where
  "type_name Auto = ''auto''"
| "type_name Major = ''major''"
| "type_name Minor = ''minor''"

record args =
  type :: type_choice
  manual :: "string option"
  dry_run :: bool
  version_file :: string
  changelog_file :: string

text \<open>What a run leaves: the exit status, the lines on the standard output, the files.\<close>

record outcome =
  exit_code :: nat
  stdout :: "string list"
  files_after :: files

text \<open>
  The part of \<open>main\<close> that settles \<open>new_version\<close> and \<open>bump_type\<close>, or stops the run (with
  what it has printed).
\<close>

definition choose_version :: "args \<Rightarrow> env \<Rightarrow> string \<Rightarrow> (stop \<times> string list) + (string \<times> string)" where
  "choose_version a e current_version =
     (if manual a \<noteq> None \<and> manual a \<noteq> Some []
      then (let new_version = strip (the (manual a))
            in if \<not> re_match False version_pattern new_version then Inl (SysExit 1, [])
               else Inr (new_version, ''manual''))
      else (let auto_type =
                  (if type a = Auto
                   then (let commits = get_git_commits_since_last_tag e
                         in if commits = [] \<or> commits = [[]]
                            then Inl (SysExit 0, [current_version])
                            else Inr (analyze_commits commits))
                   else Inr (type_name (type a)))
            in case auto_type of
                 Inl st \<Rightarrow> Inl st
               | Inr bump_type \<Rightarrow>
                   (case bump_version current_version bump_type of
                      Inl err \<Rightarrow> Inl (Uncaught err, [])
                    | Inr new_version \<Rightarrow> Inr (new_version, bump_type))))"

definition main :: "args \<Rightarrow> env \<Rightarrow> files \<Rightarrow> outcome" where
  "main a e fs =
     (case read_current_version fs (version_file a) of
        Inl st \<Rightarrow> \<lparr>exit_code = exit_status st, stdout = [], files_after = fs\<rparr>
      | Inr current_version \<Rightarrow>
          (case choose_version a e current_version of
             Inl (st, out) \<Rightarrow> \<lparr>exit_code = exit_status st, stdout = out, files_after = fs\<rparr>
           | Inr (new_version, bump_type) \<Rightarrow>
               if new_version = current_version
               then \<lparr>exit_code = 0, stdout = [current_version], files_after = fs\<rparr>
               else if dry_run a
               then \<lparr>exit_code = 0, stdout = [new_version], files_after = fs\<rparr>
               else (let fs1 = write_version new_version (version_file a) fs;
                         fs2 = update_changelog new_version bump_type (today e)
                                 (changelog_file a) fs1
                     in case run_version_sync e (version_file a) fs2 of
                          (fs3, Some st) \<Rightarrow>
                            \<lparr>exit_code = exit_status st, stdout = [], files_after = fs3\<rparr>
                        | (fs3, None) \<Rightarrow>
                            \<lparr>exit_code = 0, stdout = [new_version], files_after = fs3\<rparr>)))"

section \<open>\<open>validate_commits.py\<close>\<close>

text \<open>
  The pattern of \<open>is_conventional_commit\<close>:
  \<open>^(feat|fix|docs|style|refactor|perf|test|chore|build|ci)(\([a-z0-9\-_]+\))?(!)?:\s.{1,}\<close>.
\<close>

definition commit_types :: "string list" where
  "commit_types = [''feat'', ''fix'', ''docs'', ''style'', ''refactor'', ''perf'', ''test'',
                   ''chore'', ''build'', ''ci'']"

definition scope_class :: "(char \<times> char) list" where
  "scope_class = [(CHR ''a'', CHR ''z''), (CHR ''0'', CHR ''9''),
                  (CHR ''-'', CHR ''-''), (CHR ''_'', CHR ''_'')]"

definition conventional_pattern :: regex where
  "conventional_pattern =
     seqs [Bol, alts (map lits commit_types),
           Opt (seqs [Lit CHR ''('', Plus (Cls scope_class), Lit CHR '')'']),
           Opt (Lit CHR ''!''), Lit CHR '':'', Space, Plus Dot]"

definition is_conventional_commit :: "string \<Rightarrow> bool \<times> string" where
  "is_conventional_commit message =
     (if startswith message ''Merge '' then (True, ''merge'')
      else if startswith message ''chore: bump version'' then (True, ''automated'')
      else if re_match True conventional_pattern message then (True, ''conventional'')
      else (False, ''invalid format''))"

section \<open>The notions the properties are stated with\<close>

text \<open>Equality and prefix up to the case of the ASCII letters.\<close>

definition ci_eq :: "string \<Rightarrow> string \<Rightarrow> bool" where
  "ci_eq a b = (map lower_ch a = map lower_ch b)"

definition ci_startswith :: "string \<Rightarrow> string \<Rightarrow> bool" where
  "ci_startswith s p = ci_eq (take (length p) s) p"

text \<open>\<open>p\<close> occurs in \<open>r\<close> with no line break before it.\<close>

definition same_line_has :: "string \<Rightarrow> string \<Rightarrow> bool" where
  "same_line_has r p = (\<exists>u v. r = u @ p @ v \<and> newline \<notin> set u)"

text \<open>
  What \<open>analyze_commits\<close> takes for a breaking commit, in plain terms: the prefix
  \<open>BREAKING CHANGE:\<close>; or the prefix \<open>feat\<close> or \<open>fix\<close> with \<open>!:\<close> anywhere later on the first
  line; or \<open>BREAKING CHANGE\<close> anywhere.
\<close>

definition breaking_marker :: "string \<Rightarrow> bool" where
  "breaking_marker c =
     (ci_startswith c ''BREAKING CHANGE:''
      \<or> (ci_startswith c ''feat'' \<and> same_line_has (drop 4 c) ''!:'')
      \<or> (ci_startswith c ''fix'' \<and> same_line_has (drop 3 c) ''!:'')
      \<or> contains (upper c) ''BREAKING CHANGE'')"

text \<open>
  The breaking marker as the specification words it: the header is the type \<open>feat\<close> or
  \<open>fix\<close>, an optional scope in parentheses, then \<open>!\<close> and the colon.
\<close>

definition spec_breaking_header :: regex where
  "spec_breaking_header =
     seqs [Bol, alts [lits ''feat'', lits ''fix''],
           Opt (seqs [Lit CHR ''('', Plus Dot, Lit CHR '')'']), lits ''!:'']"

definition spec_breaking_marker :: "string \<Rightarrow> bool" where
  "spec_breaking_marker c =
     (ci_startswith c ''BREAKING CHANGE:''
      \<or> re_match True spec_breaking_header c
      \<or> contains (upper c) ''BREAKING CHANGE'')"

text \<open>
  A feature or fix header in plain terms: after the type comes the colon, or a scope in
  parentheses (at least one character, none a line break) and then the colon.
\<close>

definition scope_colon :: "string \<Rightarrow> bool" where
  "scope_colon r =
     (startswith r '':''
      \<or> (\<exists>u v. r = ''('' @ u @ ''):'' @ v \<and> u \<noteq> [] \<and> newline \<notin> set u))"

definition feature_fix_marker :: "string \<Rightarrow> bool" where
  "feature_fix_marker c =
     ((ci_startswith c ''feat'' \<and> scope_colon (drop 4 c))
      \<or> (ci_startswith c ''fix'' \<and> scope_colon (drop 3 c)))"

text \<open>A version text: digits, a dot, digits.\<close>

definition is_version_text :: "string \<Rightarrow> bool" where
  "is_version_text s =
     (\<exists>a b. s = a @ ''.'' @ b \<and> a \<noteq> [] \<and> b \<noteq> []
            \<and> list_all is_digit a \<and> list_all is_digit b)"

text \<open>
  The conventional form of a message in plain terms. A scope character is an ASCII letter
  of either case, a digit, a hyphen or an underscore.
\<close>

definition scope_char :: "char \<Rightarrow> bool" where
  "scope_char x = (is_lower x \<or> is_upper x \<or> is_digit x \<or> x = CHR ''-'' \<or> x = CHR ''_'')"

definition scope_part :: "string \<Rightarrow> bool" where
  "scope_part sc =
     (sc = [] \<or> (\<exists>u. sc = ''('' @ u @ '')'' \<and> u \<noteq> [] \<and> list_all scope_char u))"

text \<open>As the script accepts it: after the colon a white-space character, then at least one
  character that is not a line break.\<close>

definition conventional_form :: "string \<Rightarrow> bool" where
  "conventional_form m =
     (\<exists>ty sc bang w c rest.
        m = ty @ sc @ bang @ '':'' @ [w] @ [c] @ rest
        \<and> list_ex (ci_eq ty) commit_types \<and> scope_part sc
        \<and> (bang = [] \<or> bang = ''!'')
        \<and> is_space w \<and> c \<noteq> newline)"

text \<open>As the specification words it: after the colon a space, then at least one character.\<close>

definition spec_conventional_form :: "string \<Rightarrow> bool" where
  "spec_conventional_form m =
     (\<exists>ty sc bang c rest.
        m = ty @ sc @ bang @ '':'' @ '' '' @ [c] @ rest
        \<and> list_ex (ci_eq ty) commit_types \<and> scope_part sc
        \<and> (bang = [] \<or> bang = ''!''))"

text \<open>
  What has been checked before \<open>main\<close> writes anything: the version file holds a text the
  pattern accepts, and so does the manual version when one is given.
\<close>

definition validated :: "args \<Rightarrow> files \<Rightarrow> bool" where
  "validated a fs =
     ((case read_current_version fs (version_file a) of Inl st \<Rightarrow> False | Inr v \<Rightarrow> True)
      \<and> (case manual a of
           None \<Rightarrow> True
         | Some m \<Rightarrow> m = [] \<or> re_match False version_pattern (strip m)))"

text \<open>The files as \<open>write_version\<close> and \<open>update_changelog\<close> leave them, before the sync step.\<close>

definition written :: "args \<Rightarrow> env \<Rightarrow> files \<Rightarrow> string \<Rightarrow> string \<Rightarrow> files" where
  "written a e fs new_version bump_type =
     update_changelog new_version bump_type (today e) (changelog_file a)
       (write_version new_version (version_file a) fs)"

text \<open>
  The sync script exists, fails on the files just written, and the run ends with the files
  as that call left them.
\<close>

definition sync_failed_after_write :: "args \<Rightarrow> env \<Rightarrow> files \<Rightarrow> bool" where
  "sync_failed_after_write a e fs =
     (\<exists>new_version bump_type.
        sync_script_exists e
        \<and> \<not> fst (sync_run e (version_file a) (written a e fs new_version bump_type))
        \<and> files_after (main a e fs)
            = snd (sync_run e (version_file a) (written a e fs new_version bump_type)))"

text \<open>
  A construct without anchors consumes a prefix, and which prefixes it consumes does not
  depend on what follows: \<open>accepts ic n r L\<close> says that these prefixes are those with \<open>L\<close>.
\<close>

definition accepts :: "bool \<Rightarrow> nat \<Rightarrow> regex \<Rightarrow> (string \<Rightarrow> bool) \<Rightarrow> bool" where
  "accepts ic n r L = (\<forall>s t. t \<in> set (rems ic n r s) \<longleftrightarrow> (\<exists>p. s = p @ t \<and> L p))"

section \<open>Example inputs\<close>

text \<open>A changelog with the expected header, and one without the blank line after the
  separator.\<close>

definition example_changelog :: string where
  "example_changelog =
     ''# Changelog'' @ [newline] @ ''---'' @ [newline, newline]
     @ ''## [3.7] - 2024-01-01'' @ [newline]"

definition compact_changelog :: string where
  "compact_changelog =
     ''# Changelog'' @ [newline] @ ''---'' @ [newline]
     @ ''## [3.7] - 2024-01-01'' @ [newline] @ ''- old''"

definition example_files :: files where
  "example_files =
     [''VERSION'' \<mapsto> ''3.7'' @ [newline], ''CHANGELOG.md'' \<mapsto> example_changelog]"

definition compact_files :: files where
  "compact_files = [''CHANGELOG.md'' \<mapsto> compact_changelog]"

definition example_args :: args where
  "example_args =
     \<lparr>type = Auto, manual = None, dry_run = False,
      version_file = ''VERSION'', changelog_file = ''CHANGELOG.md''\<rparr>"

text \<open>A repository with one feature commit since the tag, and a sync script that fails
  without touching a file.\<close>

definition failing_sync_env :: env where
  "failing_sync_env =
     \<lparr>git_describe = (0, ''v3.7''), git_log = (\<lambda>r. Some ''feat: x''),
      today = ''2025-01-02'', sync_script_exists = True,
      sync_run = (\<lambda>p fs. (False, fs))\<rparr>"

text \<open>A repository with no commit since the tag: \<open>git log\<close> prints nothing, or a line break.\<close>

definition no_commits_env :: env where
  "no_commits_env =
     \<lparr>git_describe = (0, ''v3.7''), git_log = (\<lambda>r. Some []),
      today = ''2025-01-02'', sync_script_exists = True,
      sync_run = (\<lambda>p fs. (True, fs))\<rparr>"

definition blank_log_env :: env where
  "blank_log_env =
     \<lparr>git_describe = (0, ''v3.7''), git_log = (\<lambda>r. Some [newline]),
      today = ''2025-01-02'', sync_script_exists = True,
      sync_run = (\<lambda>p fs. (True, fs))\<rparr>"

section \<open>Lemmas on characters and strings\<close>

lemma code_char_of: "n < 256 \<Longrightarrow> code (char_of n) = n"
  by (simp add: code_def)

lemma lower_ch_upper: "is_upper c \<Longrightarrow> code (lower_ch c) = code c + 32"
  by (simp add: lower_ch_def is_upper_def code_char_of)

lemma lower_ch_not_upper: "\<not> is_upper c \<Longrightarrow> lower_ch c = c"
  by (simp add: lower_ch_def)

lemma code_inj: "code a = code b \<Longrightarrow> a = b"
  by (simp add: code_def)

lemma lower_ch_eq_plain:
  assumes "\<not> is_upper c" "\<not> is_lower c"
  shows "lower_ch x = c \<longleftrightarrow> x = c"
proof (cases "is_upper x")
  case True
  then have "is_lower (lower_ch x)"
    by (simp add: is_lower_def lower_ch_upper) (simp add: is_upper_def)
  then show ?thesis using assms True by auto
next
  case False
  then show ?thesis by (simp add: lower_ch_def)
qed

lemma lit_ok_plain:
  assumes "\<not> is_upper c" "\<not> is_lower c"
  shows "lit_ok ic c x \<longleftrightarrow> x = c"
  using assms lower_ch_eq_plain[OF assms] by (auto simp: lit_ok_def lower_ch_def)

lemma plain_chars:
  "\<not> is_upper CHR ''!''" "\<not> is_lower CHR ''!''"
  "\<not> is_upper CHR '':''" "\<not> is_lower CHR '':''"
  "\<not> is_upper CHR ''(''" "\<not> is_lower CHR ''(''"
  "\<not> is_upper CHR '')''" "\<not> is_lower CHR '')''"
  "\<not> is_upper CHR ''.''" "\<not> is_lower CHR ''.''"
  by (simp_all add: is_upper_def is_lower_def code_def)

lemma lit_ok_simps:
  "lit_ok ic CHR ''!'' x \<longleftrightarrow> x = CHR ''!''"
  "lit_ok ic CHR '':'' x \<longleftrightarrow> x = CHR '':''"
  "lit_ok ic CHR ''('' x \<longleftrightarrow> x = CHR ''(''"
  "lit_ok ic CHR '')'' x \<longleftrightarrow> x = CHR '')''"
  "lit_ok ic CHR ''.'' x \<longleftrightarrow> x = CHR ''.''"
  by (simp_all add: lit_ok_plain plain_chars)

lemma scope_char_iff: "cls_ok True scope_class x \<longleftrightarrow> scope_char x"
proof (cases "is_upper x")
  case True
  then have "in_ranges scope_class (lower_ch x)"
    by (simp add: in_ranges_def scope_class_def lower_ch_upper) (simp add: is_upper_def code_def)
  then show ?thesis using True by (simp add: cls_ok_def scope_char_def)
next
  case False
  show ?thesis
  proof (cases "is_lower x")
    case True
    then have "in_ranges scope_class x"
      by (simp add: in_ranges_def scope_class_def is_lower_def code_def)
    then show ?thesis using True by (simp add: cls_ok_def scope_char_def)
  next
    case nl: False
    have u: "upper_ch x = x" using nl by (simp add: upper_ch_def)
    have l: "lower_ch x = x" using False by (simp add: lower_ch_def)
    have "in_ranges scope_class x \<longleftrightarrow> is_digit x \<or> x = CHR ''-'' \<or> x = CHR ''_''"
      using False nl
      using code_inj[of x "CHR ''-''"] code_inj[of x "CHR ''_''"]
      by (auto simp: in_ranges_def scope_class_def is_digit_def is_lower_def is_upper_def code_def)
    then show ?thesis using False nl u l by (simp add: cls_ok_def scope_char_def)
  qed
qed

section \<open>Lemmas on the matcher\<close>

lemma in_one: "t \<in> set (one P s) \<longleftrightarrow> (\<exists>x. s = x # t \<and> P x)"
  by (cases s) (auto simp: one_def)

lemma lits_ok_ci: "list_all2 (lit_ok True) w p \<longleftrightarrow> ci_eq p w"
proof (induction w arbitrary: p)
  case Nil
  then show ?case by (simp add: ci_eq_def)
next
  case (Cons c w)
  then show ?case by (cases p) (auto simp: ci_eq_def lit_ok_def)
qed

lemma in_rems_lits:
  "t \<in> set (rems ic n (lits w) s) \<longleftrightarrow> (\<exists>p. s = p @ t \<and> list_all2 (lit_ok ic) w p)"
proof (induction w arbitrary: s)
  case Nil
  then show ?case by auto
next
  case (Cons c w)
  show ?case
  proof
    assume "t \<in> set (rems ic n (lits (c # w)) s)"
    then obtain x where x: "s = x # (drop 1 s)" "lit_ok ic c x" "t \<in> set (rems ic n (lits w) (drop 1 s))"
      by (auto simp: in_one)
    then obtain p where "drop 1 s = p @ t" "list_all2 (lit_ok ic) w p"
      using Cons.IH by blast
    then have "s = (x # p) @ t \<and> list_all2 (lit_ok ic) (c # w) (x # p)"
      using x by (metis append_Cons list_all2_Cons)
    then show "\<exists>p. s = p @ t \<and> list_all2 (lit_ok ic) (c # w) p" by blast
  next
    assume "\<exists>p. s = p @ t \<and> list_all2 (lit_ok ic) (c # w) p"
    then obtain p where p: "s = p @ t" "list_all2 (lit_ok ic) (c # w) p" by blast
    then obtain x q where q: "p = x # q" "lit_ok ic c x" "list_all2 (lit_ok ic) w q"
      by (auto simp: list_all2_Cons1)
    then have "t \<in> set (rems ic n (lits w) (q @ t))"
      using Cons.IH by blast
    then show "t \<in> set (rems ic n (lits (c # w)) s)"
      using p q by (auto simp: in_one)
  qed
qed

lemma in_rems_lits_ci:
  "t \<in> set (rems True n (lits w) s) \<longleftrightarrow> (\<exists>p. s = p @ t \<and> ci_eq p w)"
  by (simp add: in_rems_lits lits_ok_ci)

lemma in_rems_seqs_Nil: "t \<in> set (rems ic n (seqs []) s) \<longleftrightarrow> t = s"
  by auto

lemma in_rems_seqs_Cons:
  "t \<in> set (rems ic n (seqs (r # rs)) s) \<longleftrightarrow> (\<exists>m\<in>set (rems ic n r s). t \<in> set (rems ic n (seqs rs) m))"
  by auto

lemma in_rems_Bol: "t \<in> set (rems ic n Bol s) \<longleftrightarrow> t = s \<and> length s = n"
  by auto

lemma set_star_one:
  "set (star k (one P) s) = {t. \<exists>u. s = u @ t \<and> (\<forall>c\<in>set u. P c) \<and> length u \<le> k}"
proof (induction k arbitrary: s)
  case 0
  then show ?case by auto
next
  case (Suc k)
  show ?case
  proof (cases s)
    case Nil
    then show ?thesis by (auto simp: one_def)
  next
    case (Cons x xs)
    show ?thesis
    proof (cases "P x")
      case True
      have "set (star (Suc k) (one P) s) = insert s (set (star k (one P) xs))"
        using Cons True by (simp add: one_def)
      also have "\<dots> = insert s {t. \<exists>u. xs = u @ t \<and> (\<forall>c\<in>set u. P c) \<and> length u \<le> k}"
        by (simp add: Suc.IH)
      also have "\<dots> = {t. \<exists>u. s = u @ t \<and> (\<forall>c\<in>set u. P c) \<and> length u \<le> Suc k}"
      proof (intro set_eqI iffI)
        fix t assume "t \<in> insert s {t. \<exists>u. xs = u @ t \<and> (\<forall>c\<in>set u. P c) \<and> length u \<le> k}"
        then consider "t = s" | u where "xs = u @ t" "\<forall>c\<in>set u. P c" "length u \<le> k" by auto
        then show "t \<in> {t. \<exists>u. s = u @ t \<and> (\<forall>c\<in>set u. P c) \<and> length u \<le> Suc k}"
        proof cases
          case 1
          then show ?thesis by auto
        next
          case 2
          then have "s = (x # u) @ t \<and> (\<forall>c\<in>set (x # u). P c) \<and> length (x # u) \<le> Suc k"
            using Cons True by simp
          then show ?thesis by blast
        qed
      next
        fix t assume "t \<in> {t. \<exists>u. s = u @ t \<and> (\<forall>c\<in>set u. P c) \<and> length u \<le> Suc k}"
        then obtain u where u: "s = u @ t" "\<forall>c\<in>set u. P c" "length u \<le> Suc k" by auto
        show "t \<in> insert s {t. \<exists>u. xs = u @ t \<and> (\<forall>c\<in>set u. P c) \<and> length u \<le> k}"
        proof (cases u)
          case Nil
          then show ?thesis using u by simp
        next
          case (Cons y u')
          then have "xs = u' @ t \<and> (\<forall>c\<in>set u'. P c) \<and> length u' \<le> k"
            using u \<open>s = x # xs\<close> by simp
          then show ?thesis by blast
        qed
      qed
      finally show ?thesis .
    next
      case False
      have "set (star (Suc k) (one P) s) = {s}"
        using Cons False by (simp add: one_def)
      also have "\<dots> = {t. \<exists>u. s = u @ t \<and> (\<forall>c\<in>set u. P c) \<and> length u \<le> Suc k}"
      proof (intro set_eqI iffI)
        fix t assume "t \<in> {s}"
        then show "t \<in> {t. \<exists>u. s = u @ t \<and> (\<forall>c\<in>set u. P c) \<and> length u \<le> Suc k}" by auto
      next
        fix t assume "t \<in> {t. \<exists>u. s = u @ t \<and> (\<forall>c\<in>set u. P c) \<and> length u \<le> Suc k}"
        then obtain u where u: "s = u @ t" "\<forall>c\<in>set u. P c" "length u \<le> Suc k" by auto
        have "u = []"
        proof (cases u)
          case (Cons y u')
          then show ?thesis using u \<open>s = x # xs\<close> False by simp
        qed simp
        then show "t \<in> {s}" using u by simp
      qed
      finally show ?thesis .
    qed
  qed
qed

lemma in_star_atom:
  assumes "rems ic n a = one P"
  shows "t \<in> set (rems ic n (Star a) s) \<longleftrightarrow> (\<exists>u. s = u @ t \<and> (\<forall>c\<in>set u. P c))"
proof -
  have "t \<in> set (rems ic n (Star a) s) \<longleftrightarrow> (\<exists>u. s = u @ t \<and> (\<forall>c\<in>set u. P c) \<and> length u \<le> length s)"
    by (simp add: assms set_star_one)
  also have "\<dots> \<longleftrightarrow> (\<exists>u. s = u @ t \<and> (\<forall>c\<in>set u. P c))"
    by auto
  finally show ?thesis .
qed

lemma in_plus_atom:
  assumes "rems ic n a = one P"
  shows "t \<in> set (rems ic n (Plus a) s) \<longleftrightarrow> (\<exists>u. u \<noteq> [] \<and> s = u @ t \<and> (\<forall>c\<in>set u. P c))"
proof
  assume "t \<in> set (rems ic n (Plus a) s)"
  then obtain m where m: "m \<in> set (one P s)" "t \<in> set (star (length m) (one P) m)"
    by (auto simp: assms)
  then obtain x where x: "s = x # m" "P x" by (auto simp: in_one)
  from m(2) obtain u where u: "m = u @ t" "\<forall>c\<in>set u. P c" by (auto simp: set_star_one)
  have "x # u \<noteq> [] \<and> s = (x # u) @ t \<and> (\<forall>c\<in>set (x # u). P c)" using x u by simp
  then show "\<exists>u. u \<noteq> [] \<and> s = u @ t \<and> (\<forall>c\<in>set u. P c)" by blast
next
  assume "\<exists>u. u \<noteq> [] \<and> s = u @ t \<and> (\<forall>c\<in>set u. P c)"
  then obtain u where u: "u \<noteq> []" "s = u @ t" "\<forall>c\<in>set u. P c" by blast
  then obtain x v where v: "u = x # v" by (cases u) auto
  have 1: "v @ t \<in> set (one P s)" using u v by (simp add: in_one)
  have 2: "t \<in> set (star (length (v @ t)) (one P) (v @ t))"
    using u v by (auto simp: set_star_one)
  from 1 2 have "\<exists>m\<in>set (one P s). t \<in> set (star (length m) (one P) m)"
    by blast
  then show "t \<in> set (rems ic n (Plus a) s)"
    by (simp add: assms)
qed

lemma rems_Dot: "rems ic n Dot = one (\<lambda>x. x \<noteq> newline)"
  by (rule ext) simp

lemma rems_Digit: "rems ic n Digit = one is_digit"
  by (rule ext) simp

lemma rems_Cls: "rems ic n (Cls rs) = one (cls_ok ic rs)"
  by (rule ext) simp

lemma re_match_iff: "re_match ic r s \<longleftrightarrow> (\<exists>t. t \<in> set (rems ic (length s) r s))"
  by (auto simp: re_match_def intro: hd_in_set dest: length_pos_if_in_set)

lemma ci_eq_length: "ci_eq a b \<Longrightarrow> length a = length b"
  unfolding ci_eq_def by (rule map_eq_imp_length_eq)

lemma ci_startswith_iff: "ci_startswith s w \<longleftrightarrow> (\<exists>p t. s = p @ t \<and> ci_eq p w)"
proof
  assume "ci_startswith s w"
  then have "s = take (length w) s @ drop (length w) s \<and> ci_eq (take (length w) s) w"
    by (simp add: ci_startswith_def)
  then show "\<exists>p t. s = p @ t \<and> ci_eq p w" by blast
next
  assume "\<exists>p t. s = p @ t \<and> ci_eq p w"
  then obtain p t where pt: "s = p @ t" "ci_eq p w" by blast
  then have "take (length w) s = p" using ci_eq_length[OF pt(2)] by simp
  then show "ci_startswith s w" using pt by (simp add: ci_startswith_def)
qed

lemma ci_split:
  "(\<exists>p. s = p @ t \<and> ci_eq p w) \<longleftrightarrow> (ci_startswith s w \<and> t = drop (length w) s)"
proof
  assume "\<exists>p. s = p @ t \<and> ci_eq p w"
  then obtain p where pt: "s = p @ t" "ci_eq p w" by blast
  then have "ci_startswith s w" using ci_startswith_iff by blast
  moreover have "t = drop (length w) s" using pt ci_eq_length[OF pt(2)] by simp
  ultimately show "ci_startswith s w \<and> t = drop (length w) s" by simp
next
  assume a: "ci_startswith s w \<and> t = drop (length w) s"
  then have "s = take (length w) s @ t \<and> ci_eq (take (length w) s) w"
    by (simp add: ci_startswith_def)
  then show "\<exists>p. s = p @ t \<and> ci_eq p w" by blast
qed

lemma in_rems_lits_start:
  "t \<in> set (rems True n (lits w) s) \<longleftrightarrow> ci_startswith s w \<and> t = drop (length w) s"
  by (simp add: in_rems_lits_ci ci_split)

lemma in_rems_bang_colon:
  "t \<in> set (rems ic n (lits ''!:'') s) \<longleftrightarrow> s = ''!:'' @ t"
  by (auto simp: in_one lit_ok_simps)

lemma in_rems_Star_Dot:
  "t \<in> set (rems ic n (Star Dot) s) \<longleftrightarrow> (\<exists>u. s = u @ t \<and> newline \<notin> set u)"
  using in_star_atom[OF rems_Dot, of t ic n s] by auto

lemma in_rems_Plus_Dot:
  "t \<in> set (rems ic n (Plus Dot) s) \<longleftrightarrow> (\<exists>u. u \<noteq> [] \<and> s = u @ t \<and> newline \<notin> set u)"
  using in_plus_atom[OF rems_Dot, of t ic n s] by auto

lemma in_seqs_Cons:
  "t \<in> set (rems ic n (seqs (r # rs)) s)
   \<longleftrightarrow> (\<exists>m. m \<in> set (rems ic n r s) \<and> t \<in> set (rems ic n (seqs rs) m))"
  by auto

lemmas seq_simps = re_match_iff in_seqs_Cons in_rems_seqs_Nil in_rems_Bol

text \<open>The three breaking patterns.\<close>

lemma match_prefix_pattern:
  "re_match True (seqs [Bol, lits w]) s \<longleftrightarrow> ci_startswith s w"
  by (simp add: seq_simps in_rems_lits_start del: rems.simps seqs.simps)

lemma match_bang_pattern:
  "re_match True (seqs [Bol, lits w, Star Dot, lits ''!:'']) s
   \<longleftrightarrow> ci_startswith s w \<and> same_line_has (drop (length w) s) ''!:''"
proof -
  have "re_match True (seqs [Bol, lits w, Star Dot, lits ''!:'']) s
        \<longleftrightarrow> (\<exists>t. ci_startswith s w \<and> (\<exists>m. (\<exists>u. drop (length w) s = u @ m \<and> newline \<notin> set u)
                   \<and> m = ''!:'' @ t))"
    by (simp add: seq_simps in_rems_lits_start in_rems_Star_Dot in_rems_bang_colon
        del: rems.simps seqs.simps lits.simps)
  also have "\<dots> \<longleftrightarrow> ci_startswith s w \<and> same_line_has (drop (length w) s) ''!:''"
    unfolding same_line_has_def by blast
  finally show ?thesis .
qed


lemma in_rems_Opt:
  "t \<in> set (rems ic n (Opt a) s) \<longleftrightarrow> t \<in> set (rems ic n a s) \<or> t = s"
  by auto

lemma in_rems_Lit_plain:
  assumes "\<not> is_upper c" "\<not> is_lower c"
  shows "t \<in> set (rems ic n (Lit c) s) \<longleftrightarrow> s = c # t"
  by (auto simp: in_one lit_ok_plain[OF assms])

lemmas in_rems_punct =
  in_rems_Lit_plain[OF plain_chars(1,2)] in_rems_Lit_plain[OF plain_chars(3,4)]
  in_rems_Lit_plain[OF plain_chars(5,6)] in_rems_Lit_plain[OF plain_chars(7,8)]
  in_rems_Lit_plain[OF plain_chars(9,10)]

text \<open>The two feature and fix patterns.\<close>

lemma match_scope_pattern:
  "re_match True (seqs [Bol, lits w, Opt (seqs [Lit CHR ''('', Plus Dot, Lit CHR '')'']),
                        Lit CHR '':'']) s
   \<longleftrightarrow> ci_startswith s w \<and> scope_colon (drop (length w) s)"
proof -
  have "re_match True (seqs [Bol, lits w, Opt (seqs [Lit CHR ''('', Plus Dot, Lit CHR '')'']),
                             Lit CHR '':'']) s
        \<longleftrightarrow> ci_startswith s w
            \<and> (\<exists>t m. ((\<exists>m1. drop (length w) s = CHR ''('' # m1
                           \<and> (\<exists>m2. (\<exists>u. u \<noteq> [] \<and> m1 = u @ m2 \<and> newline \<notin> set u)
                                    \<and> m2 = CHR '')'' # m))
                       \<or> m = drop (length w) s)
                      \<and> m = CHR '':'' # t)"
    by (simp add: seq_simps in_rems_lits_start in_rems_Plus_Dot in_rems_punct in_rems_Opt
        del: rems.simps seqs.simps lits.simps)
  also have "\<dots> \<longleftrightarrow> ci_startswith s w \<and> scope_colon (drop (length w) s)"
  proof -
    define r where "r = drop (length w) s"
    have "(\<exists>t m. ((\<exists>m1. r = CHR ''('' # m1
                     \<and> (\<exists>m2. (\<exists>u. u \<noteq> [] \<and> m1 = u @ m2 \<and> newline \<notin> set u)
                              \<and> m2 = CHR '')'' # m))
                 \<or> m = r) \<and> m = CHR '':'' # t) \<longleftrightarrow> scope_colon r"
      unfolding scope_colon_def startswith_def prefix_def by auto
    then show ?thesis unfolding r_def by simp
  qed
  finally show ?thesis .
qed

text \<open>The tests of the loop body in plain terms.\<close>

lemma is_breaking_iff: "is_breaking c \<longleftrightarrow> breaking_marker c"
proof -
  have "list_ex (\<lambda>pattern. re_match True pattern c) breaking_patterns
        \<longleftrightarrow> ci_startswith c ''BREAKING CHANGE:''
            \<or> (ci_startswith c ''feat'' \<and> same_line_has (drop 4 c) ''!:'')
            \<or> (ci_startswith c ''fix'' \<and> same_line_has (drop 3 c) ''!:'')"
    by (simp add: breaking_patterns_def match_prefix_pattern match_bang_pattern eval_nat_numeral
        del: rems.simps seqs.simps lits.simps)
  then show ?thesis by (simp add: is_breaking_def breaking_marker_def)
qed

lemma is_feature_or_fix_iff: "is_feature_or_fix c \<longleftrightarrow> feature_fix_marker c"
  by (simp add: is_feature_or_fix_def feature_fix_patterns_def match_scope_pattern
      feature_fix_marker_def eval_nat_numeral del: rems.simps seqs.simps lits.simps)

text \<open>The loop of \<open>analyze_commits\<close>.\<close>

lemma scan_commits_Cons:
  "scan_commits (c # cs) hf =
     (if is_breaking c then \<lparr>has_breaking = True, has_feature_or_fix = hf, unvisited = cs\<rparr>
      else scan_commits cs (hf \<or> is_feature_or_fix c))"
  by (simp add: is_breaking_def is_feature_or_fix_def)

lemma scan_has_breaking:
  "has_breaking (scan_commits cs hf) \<longleftrightarrow> (\<exists>c\<in>set cs. is_breaking c)"
  by (induction cs arbitrary: hf) (simp_all add: scan_commits_Cons del: scan_commits.simps(2))

lemma scan_has_feature:
  "\<forall>c\<in>set cs. \<not> is_breaking c \<Longrightarrow>
   has_feature_or_fix (scan_commits cs hf) \<longleftrightarrow> hf \<or> (\<exists>c\<in>set cs. is_feature_or_fix c)"
  by (induction cs arbitrary: hf)
     (auto simp add: scan_commits_Cons simp del: scan_commits.simps(2))

lemma scan_unvisited:
  "unvisited (scan_commits cs hf) = drop 1 (dropWhile (\<lambda>c. \<not> is_breaking c) cs)"
  by (induction cs arbitrary: hf) (simp_all add: scan_commits_Cons del: scan_commits.simps(2))

lemma analyze_commits_cases:
  "analyze_commits cs =
     (if \<exists>c\<in>set cs. is_breaking c then ''major''
      else if \<exists>c\<in>set cs. is_feature_or_fix c then ''minor''
      else ''none'')"
  by (simp add: analyze_commits_def Let_def scan_has_breaking scan_has_feature)

section \<open>The commit classifier: claims C1 and C2\<close>

text \<open>
  C1, as amended. \<open>analyze_commits\<close> returns \<open>major\<close> if and only if some commit carries a
  breaking marker as the script tests it: the prefix \<open>BREAKING CHANGE:\<close>, or the prefix
  \<open>feat\<close> or \<open>fix\<close> followed anywhere on the first line by \<open>!:\<close> (whatever stands in between,
  not only a scope), or \<open>BREAKING CHANGE\<close> anywhere, all up to case. The loop stops at the
  first such commit: what it leaves unvisited is what follows that commit.
\<close>

theorem analyze_commits_major:
  "(analyze_commits cs = ''major'' \<longleftrightarrow> (\<exists>c\<in>set cs. breaking_marker c))
   \<and> unvisited (scan_commits cs False) = drop 1 (dropWhile (\<lambda>c. \<not> breaking_marker c) cs)"
proof -
  have "analyze_commits cs = ''major'' \<longleftrightarrow> (\<exists>c\<in>set cs. breaking_marker c)"
    by (simp add: analyze_commits_cases is_breaking_iff)
  moreover have "unvisited (scan_commits cs False)
                 = drop 1 (dropWhile (\<lambda>c. \<not> breaking_marker c) cs)"
    by (simp add: scan_unvisited is_breaking_iff)
  ultimately show ?thesis by simp
qed

theorem analyze_commits_major_witness:
  "analyze_commits [''feat: a'', ''fix(core)!: y'', ''docs: b''] = ''major''
   \<and> list_ex breaking_marker [''feat: a'', ''fix(core)!: y'', ''docs: b'']
   \<and> unvisited (scan_commits [''feat: a'', ''fix(core)!: y'', ''docs: b''] False) = [''docs: b'']"
proof -
  have 1: "analyze_commits [''feat: a'', ''fix(core)!: y'', ''docs: b''] = ''major''"
    by code_simp
  have 2: "unvisited (scan_commits [''feat: a'', ''fix(core)!: y'', ''docs: b''] False)
           = [''docs: b'']"
    by code_simp
  from 1 analyze_commits_major[of "[''feat: a'', ''fix(core)!: y'', ''docs: b'']"]
  have "\<exists>c\<in>set [''feat: a'', ''fix(core)!: y'', ''docs: b'']. breaking_marker c"
    by blast
  then have "list_ex breaking_marker [''feat: a'', ''fix(core)!: y'', ''docs: b'']"
    unfolding list_ex_iff .
  with 1 2 show ?thesis by blast
qed

text \<open>
  C1 as the specification states it fails: \<open>feat: x!: y\<close> has the type \<open>feat\<close>, no scope and no
  \<open>!\<close> before its colon, and the script still classifies it as \<open>major\<close>.
\<close>

theorem analyze_commits_major_counterexample:
  "\<not> (analyze_commits [''feat: x!: y''] = ''major''
      \<longleftrightarrow> list_ex spec_breaking_marker [''feat: x!: y''])"
  by code_simp

text \<open>
  C2, as amended. Where no commit carries a breaking marker as the script tests it (the
  prefix \<open>BREAKING CHANGE:\<close>, or the prefix \<open>feat\<close> or \<open>fix\<close> followed anywhere on the first line
  by \<open>!:\<close>, or \<open>BREAKING CHANGE\<close> anywhere, all up to case), the result is \<open>minor\<close> if and only
  if some commit is a feature or fix header; where some commit carries one, the result is
  \<open>major\<close>; and the result does not depend on the order of the commits.
\<close>

theorem analyze_commits_minor:
  "((\<forall>c\<in>set cs. \<not> breaking_marker c) \<longrightarrow>
      (analyze_commits cs = ''minor'' \<longleftrightarrow> (\<exists>c\<in>set cs. feature_fix_marker c)))
   \<and> ((\<exists>c\<in>set cs. breaking_marker c) \<longrightarrow> analyze_commits cs = ''major'')
   \<and> (set cs' = set cs \<longrightarrow> analyze_commits cs' = analyze_commits cs)"
  by (simp add: analyze_commits_cases is_breaking_iff is_feature_or_fix_iff)

theorem analyze_commits_minor_witness:
  "\<not> breaking_marker ''feat: a'' \<and> \<not> breaking_marker ''docs: b''
   \<and> feature_fix_marker ''feat: a''
   \<and> analyze_commits [''feat: a'', ''docs: b''] = ''minor''
   \<and> breaking_marker ''BREAKING CHANGE: w''
   \<and> analyze_commits [''feat: a'', ''BREAKING CHANGE: w''] = ''major''
   \<and> analyze_commits [''BREAKING CHANGE: w'', ''feat: a''] = ''major''"
proof -
  have a: "\<not> is_breaking ''feat: a''" by code_simp
  have b: "\<not> is_breaking ''docs: b''" by code_simp
  have f: "is_feature_or_fix ''feat: a''" by code_simp
  have w: "is_breaking ''BREAKING CHANGE: w''" by code_simp
  note m = a b f w
  note m' = m[unfolded is_breaking_iff is_feature_or_fix_iff]
  have 1: "analyze_commits [''feat: a'', ''docs: b''] = ''minor''"
    using analyze_commits_minor[of "[''feat: a'', ''docs: b'']"] m' by simp
  have 2: "analyze_commits [''feat: a'', ''BREAKING CHANGE: w''] = ''major''"
    using analyze_commits_minor[of "[''feat: a'', ''BREAKING CHANGE: w'']"] m' by simp
  have 3: "analyze_commits [''BREAKING CHANGE: w'', ''feat: a''] = ''major''"
    using analyze_commits_minor[of "[''BREAKING CHANGE: w'', ''feat: a'']"] m' by simp
  from m' 1 2 3 show ?thesis by blast
qed

text \<open>
  C2 as the specification states it fails: \<open>feat: x!: y\<close> carries no breaking marker in the
  sense of the specification (no \<open>!\<close> stands before its colon) and is a feature header, and
  the result is \<open>major\<close>, not \<open>minor\<close>.
\<close>

theorem analyze_commits_minor_counterexample:
  "\<not> spec_breaking_marker ''feat: x!: y''
   \<and> feature_fix_marker ''feat: x!: y''
   \<and> analyze_commits [''feat: x!: y''] = ''major''
   \<and> analyze_commits [''feat: x!: y''] \<noteq> ''minor''"
proof -
  have 1: "\<not> spec_breaking_marker ''feat: x!: y''" by code_simp
  have "is_feature_or_fix ''feat: x!: y''" by code_simp
  then have 2: "feature_fix_marker ''feat: x!: y''" by (simp only: is_feature_or_fix_iff)
  have 3: "analyze_commits [''feat: x!: y''] = ''major''" by code_simp
  then have 4: "analyze_commits [''feat: x!: y''] \<noteq> ''minor''" by simp
  from 1 2 3 4 show ?thesis by blast
qed

section \<open>Lemmas on version texts\<close>

declare str_nat.simps [simp del]

lemma digit_char_code: "d < 10 \<Longrightarrow> code (digit_char d) = 48 + d"
  by (simp add: digit_char_def code_char_of)

lemma digit_char_is_digit: "d < 10 \<Longrightarrow> is_digit (digit_char d)"
  by (simp add: is_digit_def digit_char_code)

lemma digit_val_digit_char: "d < 10 \<Longrightarrow> digit_val (digit_char d) = d"
  by (simp add: digit_val_def digit_char_code)

lemma str_nat_not_Nil: "str_nat n \<noteq> []"
  by (subst str_nat.simps) simp

lemma str_nat_digits: "list_all is_digit (str_nat n)"
proof (induction n rule: str_nat.induct)
  case (1 n)
  show ?case
  proof (cases "n < 10")
    case True
    then show ?thesis by (subst str_nat.simps) (simp add: digit_char_is_digit)
  next
    case False
    then show ?thesis using 1 by (subst str_nat.simps) (simp add: digit_char_is_digit)
  qed
qed

lemma digits_nat_snoc: "digits_nat (ds @ [c]) = 10 * digits_nat ds + digit_val c"
  by (simp add: digits_nat_def)

lemma digits_nat_str_nat: "digits_nat (str_nat n) = n"
proof (induction n rule: str_nat.induct)
  case (1 n)
  show ?case
  proof (cases "n < 10")
    case True
    then show ?thesis
      by (subst str_nat.simps) (simp add: digits_nat_def digit_val_digit_char)
  next
    case False
    then have "digits_nat (str_nat n) = 10 * (n div 10) + n mod 10"
      using 1 by (subst str_nat.simps) (simp add: digits_nat_snoc digit_val_digit_char)
    then show ?thesis by simp
  qed
qed

lemma digit_facts:
  assumes "is_digit c"
  shows "\<not> is_space c" "c \<noteq> CHR ''-''" "c \<noteq> CHR ''+''" "c \<noteq> CHR ''_''" "c \<noteq> CHR ''.''"
    "c \<noteq> newline" "\<not> is_int_space c"
  using assms by (auto simp: is_digit_def is_space_def is_int_space_def code_def newline_def)

lemma digit_val_le: "is_digit c \<Longrightarrow> digit_val c \<le> 9"
  unfolding is_digit_def digit_val_def by linarith

lemma int_strip_id:
  assumes "s \<noteq> []" "\<not> is_int_space (hd s)" "\<not> is_int_space (last s)"
  shows "int_strip s = s"
proof -
  have l: "dropWhile is_int_space s = s" using assms by (cases s) simp_all
  have "dropWhile is_int_space (rev s) = rev s"
    using assms by (cases "rev s") (simp_all add: hd_rev)
  then show ?thesis using l by (simp add: int_strip_def)
qed

lemma int_strip_newline_end:
  assumes "s \<noteq> []" "\<not> is_int_space (hd s)" "\<not> is_int_space (last s)"
  shows "int_strip (s @ [newline]) = s"
proof -
  have l: "dropWhile is_int_space (s @ [newline]) = s @ [newline]"
    using assms by (cases s) simp_all
  have n: "is_int_space newline" by (simp add: is_int_space_def newline_def)
  have "dropWhile is_int_space (rev s) = rev s"
    using assms by (cases "rev s") (simp_all add: hd_rev)
  then show ?thesis using l n by (simp add: int_strip_def)
qed

lemma grouped_digits: "ds \<noteq> [] \<Longrightarrow> list_all is_digit ds \<Longrightarrow> grouped ds"
  by (induction ds rule: grouped.induct) (auto simp: digit_facts)

lemma filter_digits: "list_all is_digit ds \<Longrightarrow> filter (\<lambda>c. c \<noteq> CHR ''_'') ds = ds"
  by (induction ds) (auto simp: digit_facts)

lemma int_digits_digits:
  "ds \<noteq> [] \<Longrightarrow> list_all is_digit ds \<Longrightarrow>
   int_digits ds = (if max_str_digits < length ds then Inl ValueError
                    else Inr (int (digits_nat ds)))"
  by (simp add: int_digits_def grouped_digits filter_digits)

lemma digits_ends:
  assumes "ds \<noteq> []" "list_all is_digit ds"
  shows "is_digit (hd ds)" "is_digit (last ds)"
  using assms by (auto simp: list_all_iff)

text \<open>\<open>int\<close> on a run of digits, also when a line break follows it.\<close>

lemma py_int_digits:
  assumes "ds \<noteq> []" "list_all is_digit ds"
  shows "py_int ds = (if max_str_digits < length ds then Inl ValueError
                      else Inr (int (digits_nat ds)))"
proof -
  have s: "int_strip ds = ds"
    using assms digits_ends[OF assms] by (intro int_strip_id) (simp_all add: digit_facts)
  obtain c r where cr: "ds = c # r" using assms by (cases ds) auto
  then have "is_digit c" using assms by simp
  then have "py_int ds = int_digits ds"
    using s cr by (simp add: py_int_def digit_facts)
  then show ?thesis using int_digits_digits[OF assms] by simp
qed

lemma py_int_digits_newline:
  assumes "ds \<noteq> []" "list_all is_digit ds"
  shows "py_int (ds @ [newline]) = (if max_str_digits < length ds then Inl ValueError
                                    else Inr (int (digits_nat ds)))"
proof -
  have s: "int_strip (ds @ [newline]) = ds"
    using assms digits_ends[OF assms] by (intro int_strip_newline_end) (simp_all add: digit_facts)
  obtain c r where cr: "ds = c # r" using assms by (cases ds) auto
  then have "is_digit c" using assms by simp
  then have "py_int (ds @ [newline]) = int_digits ds"
    using s cr by (simp add: py_int_def digit_facts)
  then show ?thesis using int_digits_digits[OF assms] by simp
qed

text \<open>The number of digits of a number, and the number a run of digits stands for.\<close>

lemma str_nat_length_le: "n < 10 ^ k \<Longrightarrow> 0 < k \<Longrightarrow> length (str_nat n) \<le> k"
proof (induction k arbitrary: n)
  case 0
  then show ?case by simp
next
  case (Suc k)
  show ?case
  proof (cases "n < 10")
    case True
    then show ?thesis by (subst str_nat.simps) simp
  next
    case False
    have k: "0 < k"
    proof (rule ccontr)
      assume "\<not> 0 < k"
      then have "k = 0" by simp
      then show False using Suc.prems False by simp
    qed
    have "n div 10 < 10 ^ k" using Suc.prems(1) by (simp add: less_mult_imp_div_less mult.commute)
    then have "length (str_nat (n div 10)) \<le> k" using Suc.IH k by blast
    then show ?thesis using False by (subst str_nat.simps) simp
  qed
qed

lemma str_nat_length_gt: "10 ^ k \<le> n \<Longrightarrow> k < length (str_nat n)"
proof (induction k arbitrary: n)
  case 0
  have "str_nat n \<noteq> []" by (rule str_nat_not_Nil)
  then show ?case by (cases "str_nat n") simp_all
next
  case (Suc k)
  have ten: "10 \<le> n"
  proof -
    have "(10::nat) ^ Suc k \<ge> 10" by simp
    then show ?thesis using Suc.prems by linarith
  qed
  have "10 ^ k * 10 \<le> n" using Suc.prems by (simp add: mult.commute)
  then have "10 ^ k \<le> n div 10" by (simp add: less_eq_div_iff_mult_less_eq)
  then have "k < length (str_nat (n div 10))" by (rule Suc.IH)
  then show ?case using ten by (subst str_nat.simps) simp
qed

lemma digits_nat_bound: "list_all is_digit ds \<Longrightarrow> digits_nat ds < 10 ^ length ds"
proof (induction ds rule: rev_induct)
  case Nil
  then show ?case by (simp add: digits_nat_def)
next
  case (snoc c ds)
  then have "digits_nat ds < 10 ^ length ds" "digit_val c \<le> 9"
    by (simp_all add: digit_val_le)
  then have "10 * digits_nat ds + digit_val c < 10 * 10 ^ length ds" by linarith
  then show ?case by (simp add: digits_nat_snoc)
qed

lemma digits_nat_limit:
  assumes "list_all is_digit ds" "length ds \<le> k"
  shows "digits_nat ds < 10 ^ k"
proof -
  have "(10::nat) ^ length ds \<le> 10 ^ k" using assms(2) by (intro power_increasing) simp_all
  then show ?thesis using digits_nat_bound[OF assms(1)] by linarith
qed

lemma digits_nat_nines: "digits_nat (replicate k CHR ''9'') = 10 ^ k - 1"
proof (induction k)
  case 0
  then show ?case by (simp add: digits_nat_def)
next
  case (Suc k)
  have v: "digit_val CHR ''9'' = 9" by (simp add: digit_val_def code_def)
  have "replicate (Suc k) CHR ''9'' = replicate k CHR ''9'' @ [CHR ''9'']"
    by (simp add: replicate_append_same)
  then have "digits_nat (replicate (Suc k) CHR ''9'') = 10 * (10 ^ k - 1) + 9"
    using Suc v by (simp only: digits_nat_snoc)
  moreover have "(1::nat) \<le> 10 ^ k" by simp
  ultimately show ?case by (simp add: algebra_simps)
qed

lemma max_str_digits_pos: "0 < max_str_digits"
  by (simp add: max_str_digits_def)

text \<open>The f-string on a natural number, and \<open>int\<close> on what it writes.\<close>

lemma str_int_nat:
  "str_int (int n) = (if n < 10 ^ max_str_digits then Inr (str_nat n) else Inl ValueError)"
proof (cases "n < 10 ^ max_str_digits")
  case True
  then have "length (str_nat n) \<le> max_str_digits"
    using max_str_digits_pos by (rule str_nat_length_le)
  then show ?thesis using True by (simp add: str_int_def Let_def)
next
  case False
  then have "max_str_digits < length (str_nat n)"
    by (intro str_nat_length_gt) simp
  then show ?thesis using False by (simp add: str_int_def Let_def)
qed

lemma py_int_str_nat:
  assumes "n < 10 ^ max_str_digits"
  shows "py_int (str_nat n) = Inr (int n)"
proof -
  have "length (str_nat n) \<le> max_str_digits"
    using assms max_str_digits_pos by (rule str_nat_length_le)
  then show ?thesis
    using py_int_digits[OF str_nat_not_Nil str_nat_digits, of n]
    by (simp add: digits_nat_str_nat)
qed

lemma split_on_none: "sep \<notin> set b \<Longrightarrow> split_on sep b = [b]"
  by (induction b) auto

lemma split_on_first:
  "sep \<notin> set a \<Longrightarrow> split_on sep (a @ sep # r) = a # split_on sep r"
  by (induction a) auto

lemma split_on_two:
  "sep \<notin> set a \<Longrightarrow> sep \<notin> set b \<Longrightarrow> split_on sep (a @ sep # b) = [a, b]"
  by (simp add: split_on_first split_on_none)

lemma digits_no_dot: "list_all is_digit ds \<Longrightarrow> CHR ''.'' \<notin> set ds"
  using digit_facts(5) by (auto simp: list_all_iff)

text \<open>The first line of \<open>bump_version\<close> on digits, a dot and digits.\<close>

lemma parse_version_text:
  assumes "a \<noteq> []" "b \<noteq> []" "list_all is_digit a" "list_all is_digit b"
  shows "parse_version (a @ ''.'' @ b)
         = (if max_str_digits < length a \<or> max_str_digits < length b then Inl ValueError
            else Inr (int (digits_nat a), int (digits_nat b)))"
    and "parse_version (a @ ''.'' @ b @ [newline])
         = (if max_str_digits < length a \<or> max_str_digits < length b then Inl ValueError
            else Inr (int (digits_nat a), int (digits_nat b)))"
proof -
  have d: "CHR ''.'' \<notin> set a" "CHR ''.'' \<notin> set b" "CHR ''.'' \<notin> set (b @ [newline])"
    using assms digits_no_dot by (auto simp: newline_def)
  have 1: "split_on CHR ''.'' (a @ ''.'' @ b) = [a, b]"
    using d by (simp add: split_on_two)
  have 2: "split_on CHR ''.'' (a @ ''.'' @ b @ [newline]) = [a, b @ [newline]]"
    using d by (simp add: split_on_two)
  show "parse_version (a @ ''.'' @ b)
         = (if max_str_digits < length a \<or> max_str_digits < length b then Inl ValueError
            else Inr (int (digits_nat a), int (digits_nat b)))"
    unfolding parse_version_def 1
    by (simp add: py_int_digits[OF assms(1,3)] py_int_digits[OF assms(2,4)])
  show "parse_version (a @ ''.'' @ b @ [newline])
         = (if max_str_digits < length a \<or> max_str_digits < length b then Inl ValueError
            else Inr (int (digits_nat a), int (digits_nat b)))"
    unfolding parse_version_def 2
    by (simp add: py_int_digits[OF assms(1,3)] py_int_digits_newline[OF assms(2,4)])
qed

text \<open>The f-string on two natural numbers below the limit, and the way back.\<close>

lemma serialize_nat:
  "serialize_version (int m, int n)
   = (if m < 10 ^ max_str_digits \<and> n < 10 ^ max_str_digits
      then Inr (str_nat m @ ''.'' @ str_nat n) else Inl ValueError)"
  by (simp add: serialize_version_def str_int_nat)

lemma version_text_str_nat: "is_version_text (str_nat m @ ''.'' @ str_nat n)"
  unfolding is_version_text_def using str_nat_not_Nil str_nat_digits by blast

lemma parse_str_nat:
  assumes "m < 10 ^ max_str_digits" "n < 10 ^ max_str_digits"
  shows "parse_version (str_nat m @ ''.'' @ str_nat n) = Inr (int m, int n)"
proof -
  have l: "length (str_nat m) \<le> max_str_digits" "length (str_nat n) \<le> max_str_digits"
    using assms max_str_digits_pos by (auto intro: str_nat_length_le)
  show ?thesis
    using parse_version_text(1)[OF str_nat_not_Nil str_nat_not_Nil str_nat_digits str_nat_digits,
        of m n] l
    by (simp add: digits_nat_str_nat)
qed

lemma in_rems_Plus_Digit:
  "t \<in> set (rems ic n (Plus Digit) s) \<longleftrightarrow> (\<exists>u. u \<noteq> [] \<and> s = u @ t \<and> list_all is_digit u)"
  using in_plus_atom[OF rems_Digit, of t ic n s] by (simp add: list_all_iff)

lemma in_rems_Eol:
  "t \<in> set (rems ic n Eol s) \<longleftrightarrow> t = s \<and> (s = [] \<or> s = [newline])"
  by auto

lemma match_version_pattern:
  "re_match False version_pattern s
   \<longleftrightarrow> is_version_text s \<or> (\<exists>t. s = t @ [newline] \<and> is_version_text t)"
proof -
  have "re_match False version_pattern s
        \<longleftrightarrow> (\<exists>a b e. a \<noteq> [] \<and> b \<noteq> [] \<and> list_all is_digit a \<and> list_all is_digit b
                    \<and> s = a @ ''.'' @ b @ e \<and> (e = [] \<or> e = [newline]))"
    unfolding version_pattern_def
    by (simp add: seq_simps in_rems_Plus_Digit in_rems_punct in_rems_Eol
        del: rems.simps seqs.simps) blast
  also have "\<dots> \<longleftrightarrow> is_version_text s \<or> (\<exists>t. s = t @ [newline] \<and> is_version_text t)"
  proof
    assume "\<exists>a b e. a \<noteq> [] \<and> b \<noteq> [] \<and> list_all is_digit a \<and> list_all is_digit b
                  \<and> s = a @ ''.'' @ b @ e \<and> (e = [] \<or> e = [newline])"
    then obtain a b e where ab: "a \<noteq> []" "b \<noteq> []" "list_all is_digit a" "list_all is_digit b"
      and s: "s = a @ ''.'' @ b @ e" and e: "e = [] \<or> e = [newline]" by blast
    have t: "is_version_text (a @ ''.'' @ b)"
      unfolding is_version_text_def using ab by blast
    from e show "is_version_text s \<or> (\<exists>t. s = t @ [newline] \<and> is_version_text t)"
    proof
      assume "e = []"
      then show ?thesis using t s by simp
    next
      assume "e = [newline]"
      then have "s = (a @ ''.'' @ b) @ [newline]" using s by simp
      then show ?thesis using t by blast
    qed
  next
    assume "is_version_text s \<or> (\<exists>t. s = t @ [newline] \<and> is_version_text t)"
    then show "\<exists>a b e. a \<noteq> [] \<and> b \<noteq> [] \<and> list_all is_digit a \<and> list_all is_digit b
                  \<and> s = a @ ''.'' @ b @ e \<and> (e = [] \<or> e = [newline])"
    proof
      assume "is_version_text s"
      then obtain a b where "s = a @ ''.'' @ b @ []" "a \<noteq> []" "b \<noteq> []"
        "list_all is_digit a" "list_all is_digit b"
        unfolding is_version_text_def by auto
      then show ?thesis by blast
    next
      assume "\<exists>t. s = t @ [newline] \<and> is_version_text t"
      then obtain a b where "s = a @ ''.'' @ b @ [newline]" "a \<noteq> []" "b \<noteq> []"
        "list_all is_digit a" "list_all is_digit b"
        unfolding is_version_text_def by auto
      then show ?thesis by blast
    qed
  qed
  finally show ?thesis .
qed

section \<open>Version arithmetic: claims C3, C8 and C9\<close>

lemma bump_version_parsed:
  assumes "parse_version v = Inr (x, y)"
  shows "bump_version v k =
           (if k = ''major'' then serialize_version (x + 1, 0)
            else if k = ''minor'' then serialize_version (x, y + 1)
            else Inr v)"
  using assms by (simp add: bump_version_def)

lemma below_limit: "(n::nat) < 10 ^ 4 \<Longrightarrow> n < 10 ^ max_str_digits"
proof -
  assume n: "n < 10 ^ 4"
  have "4 \<le> max_str_digits" by (simp add: max_str_digits_def)
  then have "(10::nat) ^ 4 \<le> 10 ^ max_str_digits" by (intro power_increasing) simp_all
  then show ?thesis using n by linarith
qed

lemma nines_digits: "list_all is_digit (replicate k CHR ''9'')"
  by (simp add: list_all_iff is_digit_def code_def)

lemma ones_digits: "list_all is_digit (replicate k CHR ''1'')"
  by (simp add: list_all_iff is_digit_def code_def)

lemma zero_digits: "list_all is_digit ''0''" "digits_nat ''0'' = 0"
  by (simp_all add: is_digit_def code_def digits_nat_def digit_val_def)

text \<open>\<open>bump_version\<close> once the two numbers are read, and the f-string on a bumped pair.\<close>

lemma bump_version_nat:
  assumes "parse_version v = Inr (int x, int y)"
  shows "bump_version v k =
           (if k = ''major'' then serialize_version (int (Suc x), int 0)
            else if k = ''minor'' then serialize_version (int x, int (Suc y))
            else Inr v)"
  by (simp add: bump_version_parsed[OF assms] add.commute)

lemma serialize_at_limit:
  "serialize_version (int (10 ^ max_str_digits), int 0) = Inl ValueError"
  by (simp only: serialize_nat) simp

lemma serialize_major:
  "serialize_version (int (Suc m), int 0)
   = (if Suc m < 10 ^ max_str_digits then Inr (str_nat (Suc m) @ ''.'' @ str_nat 0)
      else Inl ValueError)"
proof -
  have "(0::nat) < 10 ^ max_str_digits" by simp
  then show ?thesis by (simp only: serialize_nat simp_thms)
qed

lemma int_pairs:
  "(int m + 1, (0::int)) = (int (Suc m), int 0)"
  "(int m, int n + 1) = (int m, int (Suc n))"
  by simp_all

text \<open>
  C3, as amended. Take a version \<open>(major, minor)\<close> of natural numbers whose decimal texts,
  before and after the bump, have at most 4300 digits (beyond that the integer conversions
  of CPython raise \<open>ValueError\<close>). On the text of the version, \<open>bump_version\<close> with \<open>major\<close> gives
  the text of \<open>(major + 1, 0)\<close>, with \<open>minor\<close> that of \<open>(major, minor + 1)\<close>, and with \<open>none\<close> the
  text it was given; so for \<open>3.7\<close> it gives \<open>4.0\<close>, \<open>3.8\<close> and \<open>3.7\<close>.
\<close>

theorem bump_version_arithmetic:
  "(Suc major < 10 ^ max_str_digits \<and> minor < 10 ^ max_str_digits \<longrightarrow>
      (\<exists>s s'. serialize_version (int major, int minor) = Inr s
            \<and> serialize_version (int major + 1, 0) = Inr s'
            \<and> bump_version s ''major'' = Inr s'))
   \<and> (major < 10 ^ max_str_digits \<and> Suc minor < 10 ^ max_str_digits \<longrightarrow>
      (\<exists>s s'. serialize_version (int major, int minor) = Inr s
            \<and> serialize_version (int major, int minor + 1) = Inr s'
            \<and> bump_version s ''minor'' = Inr s'))
   \<and> (major < 10 ^ max_str_digits \<and> minor < 10 ^ max_str_digits \<longrightarrow>
      (\<exists>s. serialize_version (int major, int minor) = Inr s
          \<and> bump_version s ''none'' = Inr s))
   \<and> serialize_version (3, 7) = Inr ''3.7''
   \<and> bump_version ''3.7'' ''major'' = Inr ''4.0''
   \<and> bump_version ''3.7'' ''minor'' = Inr ''3.8''
   \<and> bump_version ''3.7'' ''none'' = Inr ''3.7''"
proof (intro conjI impI)
  assume h: "Suc major < 10 ^ max_str_digits \<and> minor < 10 ^ max_str_digits"
  then have m: "major < 10 ^ max_str_digits" and n: "minor < 10 ^ max_str_digits"
    and sm: "Suc major < 10 ^ max_str_digits" by simp_all
  have 1: "serialize_version (int major, int minor) = Inr (str_nat major @ ''.'' @ str_nat minor)"
    using m n by (simp add: serialize_nat)
  have 2: "serialize_version (int major + 1, 0)
           = Inr (str_nat (Suc major) @ ''.'' @ str_nat 0)"
    unfolding int_pairs serialize_major using sm by simp
  have 3: "bump_version (str_nat major @ ''.'' @ str_nat minor) ''major''
           = Inr (str_nat (Suc major) @ ''.'' @ str_nat 0)"
    unfolding bump_version_nat[OF parse_str_nat[OF m n]] serialize_major using sm by simp
  show "\<exists>s s'. serialize_version (int major, int minor) = Inr s
            \<and> serialize_version (int major + 1, 0) = Inr s'
            \<and> bump_version s ''major'' = Inr s'"
    using 1 2 3 by blast
next
  assume h: "major < 10 ^ max_str_digits \<and> Suc minor < 10 ^ max_str_digits"
  then have m: "major < 10 ^ max_str_digits" and n: "minor < 10 ^ max_str_digits"
    and sn: "Suc minor < 10 ^ max_str_digits" by simp_all
  have 1: "serialize_version (int major, int minor) = Inr (str_nat major @ ''.'' @ str_nat minor)"
    using m n by (simp add: serialize_nat)
  have 2: "serialize_version (int major, int minor + 1)
           = Inr (str_nat major @ ''.'' @ str_nat (Suc minor))"
    unfolding int_pairs serialize_nat using m sn by simp
  have 3: "bump_version (str_nat major @ ''.'' @ str_nat minor) ''minor''
           = Inr (str_nat major @ ''.'' @ str_nat (Suc minor))"
    unfolding bump_version_nat[OF parse_str_nat[OF m n]] serialize_nat using m sn by simp
  show "\<exists>s s'. serialize_version (int major, int minor) = Inr s
            \<and> serialize_version (int major, int minor + 1) = Inr s'
            \<and> bump_version s ''minor'' = Inr s'"
    using 1 2 3 by blast
next
  assume h: "major < 10 ^ max_str_digits \<and> minor < 10 ^ max_str_digits"
  then have m: "major < 10 ^ max_str_digits" and n: "minor < 10 ^ max_str_digits"
    by simp_all
  have 1: "serialize_version (int major, int minor) = Inr (str_nat major @ ''.'' @ str_nat minor)"
    using m n by (simp add: serialize_nat)
  have 3: "bump_version (str_nat major @ ''.'' @ str_nat minor) ''none''
           = Inr (str_nat major @ ''.'' @ str_nat minor)"
    unfolding bump_version_nat[OF parse_str_nat[OF m n]] by simp
  show "\<exists>s. serialize_version (int major, int minor) = Inr s
          \<and> bump_version s ''none'' = Inr s"
    using 1 3 by blast
next
  show "serialize_version (3, 7) = Inr ''3.7''" by code_simp
  show "bump_version ''3.7'' ''major'' = Inr ''4.0''" by code_simp
  show "bump_version ''3.7'' ''minor'' = Inr ''3.8''" by code_simp
  show "bump_version ''3.7'' ''none'' = Inr ''3.7''" by code_simp
qed

theorem bump_version_arithmetic_witness:
  "Suc 12 < (10::nat) ^ max_str_digits \<and> Suc 9 < (10::nat) ^ max_str_digits
   \<and> serialize_version (int 12, int 9) = Inr ''12.9''
   \<and> bump_version ''12.9'' ''major'' = Inr ''13.0''
   \<and> bump_version ''12.9'' ''minor'' = Inr ''12.10''
   \<and> bump_version ''12.9'' ''none'' = Inr ''12.9''"
proof -
  have l: "Suc 12 < (10::nat) ^ max_str_digits" "Suc 9 < (10::nat) ^ max_str_digits"
    "12 < (10::nat) ^ max_str_digits" "9 < (10::nat) ^ max_str_digits"
    by (intro below_limit; simp)+
  have 0: "serialize_version (int 12, int 9) = Inr ''12.9''" by code_simp
  have 1: "serialize_version (int 12 + 1, 0) = Inr ''13.0''" by code_simp
  have 2: "serialize_version (int 12, int 9 + 1) = Inr ''12.10''" by code_simp
  note t = bump_version_arithmetic[of 12 9]
  have a: "bump_version ''12.9'' ''major'' = Inr ''13.0''"
    using t l 0 1 by auto
  have b: "bump_version ''12.9'' ''minor'' = Inr ''12.10''"
    using t l 0 2 by auto
  have c: "bump_version ''12.9'' ''none'' = Inr ''12.9''"
    using t l 0 by auto
  from l(1,2) 0 a b c show ?thesis by blast
qed

text \<open>
  C3 as the specification states it fails: the text of 4300 nines, a dot and \<open>0\<close> is the
  version \<open>(10^4300 - 1, 0)\<close>, and \<open>bump_version\<close> with \<open>major\<close> raises \<open>ValueError\<close> on it, since
  the f-string cannot write the 4301 digits of \<open>10^4300\<close>.
\<close>

theorem bump_version_arithmetic_counterexample:
  "parse_version (replicate max_str_digits CHR ''9'' @ ''.0'')
     = Inr (10 ^ max_str_digits - 1, 0)
   \<and> bump_version (replicate max_str_digits CHR ''9'' @ ''.0'') ''major'' = Inl ValueError"
proof -
  have ne: "replicate max_str_digits CHR ''9'' \<noteq> []"
    using max_str_digits_pos by simp
  have "parse_version (replicate max_str_digits CHR ''9'' @ ''.'' @ ''0'')
        = Inr (int (digits_nat (replicate max_str_digits CHR ''9'')), int (digits_nat ''0''))"
    using parse_version_text(1)[OF ne _ nines_digits zero_digits(1)] max_str_digits_pos
    by simp
  then have p: "parse_version (replicate max_str_digits CHR ''9'' @ ''.0'')
        = Inr (int (10 ^ max_str_digits - 1), int 0)"
    by (simp add: digits_nat_nines zero_digits(2))
  have i: "int (10 ^ max_str_digits - 1) = 10 ^ max_str_digits - 1"
    by (simp add: of_nat_diff)
  have s: "Suc (10 ^ max_str_digits - 1) = 10 ^ max_str_digits"
    by simp
  have "bump_version (replicate max_str_digits CHR ''9'' @ ''.0'') ''major''
        = serialize_version (int (Suc (10 ^ max_str_digits - 1)), int 0)"
    unfolding bump_version_nat[OF p] by (simp only: simp_thms if_True)
  then have b: "bump_version (replicate max_str_digits CHR ''9'' @ ''.0'') ''major''
           = Inl ValueError"
    unfolding s serialize_at_limit .
  from p b show ?thesis unfolding i by simp
qed

text \<open>
  C8, as amended. The text of a version of two natural numbers of at most 4300 digits each
  passes the check of the version file, and the first line of \<open>bump_version\<close> reads the two
  numbers back from it.
\<close>

theorem version_roundtrip:
  "major < 10 ^ max_str_digits \<and> minor < 10 ^ max_str_digits \<longrightarrow>
     (\<exists>s. serialize_version (int major, int minor) = Inr s
         \<and> parse_version s = Inr (int major, int minor)
         \<and> re_match False version_pattern s)"
proof
  assume h: "major < 10 ^ max_str_digits \<and> minor < 10 ^ max_str_digits"
  then have m: "major < 10 ^ max_str_digits" and n: "minor < 10 ^ max_str_digits"
    by simp_all
  have 1: "serialize_version (int major, int minor) = Inr (str_nat major @ ''.'' @ str_nat minor)"
    using m n by (simp add: serialize_nat)
  have 2: "parse_version (str_nat major @ ''.'' @ str_nat minor) = Inr (int major, int minor)"
    by (rule parse_str_nat[OF m n])
  have 3: "re_match False version_pattern (str_nat major @ ''.'' @ str_nat minor)"
    using version_text_str_nat[of major minor] by (simp only: match_version_pattern simp_thms)
  show "\<exists>s. serialize_version (int major, int minor) = Inr s
         \<and> parse_version s = Inr (int major, int minor)
         \<and> re_match False version_pattern s"
    using 1 2 3 by blast
qed

theorem version_roundtrip_witness:
  "3 < (10::nat) ^ max_str_digits \<and> 7 < (10::nat) ^ max_str_digits
   \<and> serialize_version (int 3, int 7) = Inr ''3.7''
   \<and> parse_version ''3.7'' = Inr (3, 7) \<and> re_match False version_pattern ''3.7''"
proof -
  have l: "3 < (10::nat) ^ max_str_digits" "7 < (10::nat) ^ max_str_digits"
    by (intro below_limit; simp)+
  have 0: "serialize_version (int 3, int 7) = Inr ''3.7''" by code_simp
  have "parse_version ''3.7'' = Inr (int 3, int 7) \<and> re_match False version_pattern ''3.7''"
    using version_roundtrip[of 3 7] l 0 by auto
  then show ?thesis using l 0 by simp
qed

text \<open>
  C8 as the specification states it fails: the f-string raises \<open>ValueError\<close> on the version
  \<open>(10^4300, 0)\<close>, so there is no serialized form to parse.
\<close>

theorem version_roundtrip_counterexample:
  "serialize_version (10 ^ max_str_digits, 0) = Inl ValueError"
proof -
  have "serialize_version (int (10 ^ max_str_digits), int 0) = Inl ValueError"
    by (rule serialize_at_limit)
  then show ?thesis by simp
qed

text \<open>On digits, a dot and digits, with or without a line break at the end.\<close>

lemma bump_version_format:
  assumes ab: "a \<noteq> []" "b \<noteq> []" "list_all is_digit a" "list_all is_digit b"
    and e: "e = [] \<or> e = [newline]"
  shows "(if length a \<le> max_str_digits \<and> length b \<le> max_str_digits
             \<and> (k = ''major'' \<longrightarrow> Suc (digits_nat a) < 10 ^ max_str_digits)
             \<and> (k = ''minor'' \<longrightarrow> Suc (digits_nat b) < 10 ^ max_str_digits)
          then \<exists>r. bump_version (a @ ''.'' @ b @ e) k = Inr r
                 \<and> re_match False version_pattern r
                 \<and> (e = [] \<longrightarrow> is_version_text r)
                 \<and> (k \<noteq> ''major'' \<and> k \<noteq> ''minor'' \<longrightarrow> r = a @ ''.'' @ b @ e)
          else bump_version (a @ ''.'' @ b @ e) k = Inl ValueError)"
proof -
  let ?v = "a @ ''.'' @ b @ e"
  have p: "parse_version ?v
           = (if max_str_digits < length a \<or> max_str_digits < length b then Inl ValueError
              else Inr (int (digits_nat a), int (digits_nat b)))"
    using e parse_version_text[OF ab] by auto
  have vt: "is_version_text (a @ ''.'' @ b)"
    unfolding is_version_text_def using ab by blast
  have mv: "re_match False version_pattern ?v"
  proof -
    from e have "is_version_text ?v \<or> (\<exists>t. ?v = t @ [newline] \<and> is_version_text t)"
    proof
      assume "e = []"
      then show ?thesis using vt by simp
    next
      assume "e = [newline]"
      then have "?v = (a @ ''.'' @ b) @ [newline]" by simp
      then show ?thesis using vt by blast
    qed
    then show ?thesis by (simp only: match_version_pattern)
  qed
  have ev: "e = [] \<longrightarrow> is_version_text ?v" using vt by simp
  have ok: "re_match False version_pattern (str_nat x @ ''.'' @ str_nat y)
            \<and> is_version_text (str_nat x @ ''.'' @ str_nat y)" for x y
    using version_text_str_nat[of x y] by (simp only: match_version_pattern simp_thms)
  show ?thesis
  proof (cases "length a \<le> max_str_digits \<and> length b \<le> max_str_digits")
    case False
    then have "parse_version ?v = Inl ValueError" using p by auto
    then have "bump_version ?v k = Inl ValueError" by (simp add: bump_version_def)
    then show ?thesis using False by auto
  next
    case True
    then have pv: "parse_version ?v = Inr (int (digits_nat a), int (digits_nat b))"
      using p by auto
    have la: "digits_nat a < 10 ^ max_str_digits" and lb: "digits_nat b < 10 ^ max_str_digits"
      using True ab digits_nat_limit by blast+
    note bv = bump_version_nat[OF pv, of k]
    consider (major) "k = ''major''" | (minor) "k = ''minor''"
      | (other) "k \<noteq> ''major''" "k \<noteq> ''minor''" by blast
    then show ?thesis
    proof cases
      case major
      have b1: "bump_version ?v k
                = (if Suc (digits_nat a) < 10 ^ max_str_digits
                   then Inr (str_nat (Suc (digits_nat a)) @ ''.'' @ str_nat 0)
                   else Inl ValueError)"
        unfolding bv serialize_major using major by simp
      show ?thesis
      proof (cases "Suc (digits_nat a) < 10 ^ max_str_digits")
        case s: True
        then show ?thesis using True major b1 ok by simp
      next
        case s: False
        then show ?thesis using major b1 by simp
      qed
    next
      case minor
      then have nm: "k \<noteq> ''major''" by simp
      have b1: "bump_version ?v k
                = (if Suc (digits_nat b) < 10 ^ max_str_digits
                   then Inr (str_nat (digits_nat a) @ ''.'' @ str_nat (Suc (digits_nat b)))
                   else Inl ValueError)"
        unfolding bv serialize_nat using minor nm la by simp
      show ?thesis
      proof (cases "Suc (digits_nat b) < 10 ^ max_str_digits")
        case s: True
        then show ?thesis using True minor nm b1 ok by simp
      next
        case s: False
        then show ?thesis using minor nm b1 by simp
      qed
    next
      case other
      have "bump_version ?v k = Inr ?v" using bv other by simp
      then show ?thesis using True other mv ev by simp
    qed
  qed
qed

text \<open>
  C9, as amended. Take a version text (digits, a dot, digits), or one followed by the line
  break the pattern also accepts. When each run of digits has at most 4300 digits and the
  bumped number (the first for \<open>major\<close>, the second for \<open>minor\<close>) still has at most 4300,
  \<open>bump_version\<close> raises nothing, whatever the kind, and returns a text the pattern accepts (a
  version text when no line break was given); a kind other than \<open>major\<close> and \<open>minor\<close> returns
  the text unchanged. Otherwise it raises \<open>ValueError\<close>.
\<close>

theorem bump_version_total:
  "a \<noteq> [] \<and> b \<noteq> [] \<and> list_all is_digit a \<and> list_all is_digit b
   \<and> (e = [] \<or> e = [newline]) \<longrightarrow>
     (if length a \<le> max_str_digits \<and> length b \<le> max_str_digits
         \<and> (k = ''major'' \<longrightarrow> Suc (digits_nat a) < 10 ^ max_str_digits)
         \<and> (k = ''minor'' \<longrightarrow> Suc (digits_nat b) < 10 ^ max_str_digits)
      then \<exists>r. bump_version (a @ ''.'' @ b @ e) k = Inr r
             \<and> re_match False version_pattern r
             \<and> (e = [] \<longrightarrow> is_version_text r)
             \<and> (k \<noteq> ''major'' \<and> k \<noteq> ''minor'' \<longrightarrow> r = a @ ''.'' @ b @ e)
      else bump_version (a @ ''.'' @ b @ e) k = Inl ValueError)"
proof
  assume h: "a \<noteq> [] \<and> b \<noteq> [] \<and> list_all is_digit a \<and> list_all is_digit b
   \<and> (e = [] \<or> e = [newline])"
  show "(if length a \<le> max_str_digits \<and> length b \<le> max_str_digits
         \<and> (k = ''major'' \<longrightarrow> Suc (digits_nat a) < 10 ^ max_str_digits)
         \<and> (k = ''minor'' \<longrightarrow> Suc (digits_nat b) < 10 ^ max_str_digits)
      then \<exists>r. bump_version (a @ ''.'' @ b @ e) k = Inr r
             \<and> re_match False version_pattern r
             \<and> (e = [] \<longrightarrow> is_version_text r)
             \<and> (k \<noteq> ''major'' \<and> k \<noteq> ''minor'' \<longrightarrow> r = a @ ''.'' @ b @ e)
      else bump_version (a @ ''.'' @ b @ e) k = Inl ValueError)"
    by (rule bump_version_format) (use h in simp_all)
qed

theorem bump_version_total_witness:
  "list_all is_digit ''3'' \<and> list_all is_digit ''7''
   \<and> Suc (digits_nat ''7'') < 10 ^ max_str_digits
   \<and> bump_version ''3.7'' ''minor'' = Inr ''3.8'' \<and> is_version_text ''3.8''
   \<and> re_match False version_pattern ''3.8''
   \<and> bump_version ''3.7'' ''manual'' = Inr ''3.7''"
proof -
  have d: "list_all is_digit ''3''" "list_all is_digit ''7''" by code_simp+
  have l: "length ''3'' \<le> max_str_digits" "length ''7'' \<le> max_str_digits"
    by (simp_all add: max_str_digits_def)
  have "digits_nat ''7'' = 7" by (simp add: digits_nat_def digit_val_def code_def)
  then have s: "Suc (digits_nat ''7'') < 10 ^ max_str_digits"
    by (intro below_limit) simp
  have 1: "bump_version ''3.7'' ''minor'' = Inr ''3.8''" by code_simp
  have 2: "bump_version ''3.7'' ''manual'' = Inr ''3.7''" by code_simp
  have "\<exists>r. bump_version (''3'' @ ''.'' @ ''7'' @ []) ''minor'' = Inr r
           \<and> re_match False version_pattern r \<and> (([]::string) = [] \<longrightarrow> is_version_text r)
           \<and> (''minor'' \<noteq> ''major'' \<and> ''minor'' \<noteq> ''minor'' \<longrightarrow> r = ''3'' @ ''.'' @ ''7'' @ [])"
    using bump_version_total[of "''3''" "''7''" "[]" "''minor''"] d l s by simp
  then have "re_match False version_pattern ''3.8'' \<and> is_version_text ''3.8''"
    using 1 by auto
  with d s 1 2 show ?thesis by blast
qed

text \<open>
  C9 as the specification states it fails: 4301 ones, a dot and \<open>0\<close> match the pattern, and
  \<open>bump_version\<close> raises \<open>ValueError\<close> on them even for a kind that changes nothing.
\<close>

theorem bump_version_total_counterexample:
  "is_version_text (replicate (Suc max_str_digits) CHR ''1'' @ ''.0'')
   \<and> re_match False version_pattern (replicate (Suc max_str_digits) CHR ''1'' @ ''.0'')
   \<and> bump_version (replicate (Suc max_str_digits) CHR ''1'' @ ''.0'') ''none'' = Inl ValueError"
proof -
  let ?a = "replicate (Suc max_str_digits) CHR ''1''"
  have ne: "?a \<noteq> []" "''0'' \<noteq> []" by simp_all
  have "?a @ ''.0'' = ?a @ ''.'' @ ''0'' \<and> ?a \<noteq> [] \<and> ''0'' \<noteq> []
        \<and> list_all is_digit ?a \<and> list_all is_digit ''0''"
    using ones_digits[of "Suc max_str_digits"] zero_digits(1) by simp
  then have v: "is_version_text (?a @ ''.0'')"
    unfolding is_version_text_def by blast
  then have m: "re_match False version_pattern (?a @ ''.0'')"
    by (simp only: match_version_pattern simp_thms)
  have "parse_version (?a @ ''.'' @ ''0'') = Inl ValueError"
    using parse_version_text(1)[OF ne ones_digits zero_digits(1)] by simp
  then have "bump_version (?a @ ''.0'') ''none'' = Inl ValueError"
    by (simp add: bump_version_def)
  with v m show ?thesis by blast
qed

section \<open>Lemmas on the changelog\<close>

lemma find_insert_index_first:
  assumes "i < length lines" "strip (lines ! i) = ''---''" "k + i < 20"
    and "\<forall>j<i. strip (lines ! j) \<noteq> ''---''"
  shows "find_insert_index lines k = Some (k + i + 2)"
  using assms
proof (induction lines arbitrary: i k)
  case Nil
  then show ?case by simp
next
  case (Cons l ls)
  show ?case
  proof (cases i)
    case 0
    then show ?thesis using Cons.prems by simp
  next
    case (Suc i')
    have "strip l \<noteq> ''---''" using Cons.prems(4) Suc by auto
    moreover have "find_insert_index ls (k + 1) = Some (k + 1 + i' + 2)"
    proof (rule Cons.IH)
      show "i' < length ls" using Cons.prems(1) Suc by simp
      show "strip (ls ! i') = ''---''" using Cons.prems(2) Suc by simp
      show "k + 1 + i' < 20" using Cons.prems(3) Suc by simp
      show "\<forall>j<i'. strip (ls ! j) \<noteq> ''---''"
      proof (intro allI impI)
        fix j assume "j < i'"
        then have "Suc j < i" using Suc by simp
        then have "strip ((l # ls) ! Suc j) \<noteq> ''---''" using Cons.prems(4) by blast
        then show "strip (ls ! j) \<noteq> ''---''" by simp
      qed
    qed
    ultimately show ?thesis using Suc by simp
  qed
qed

lemma find_insert_index_pos: "find_insert_index lines k = Some n \<Longrightarrow> n \<noteq> 0"
  by (induction lines arbitrary: k) (auto split: if_splits)

lemma find_insert_index_None:
  "find_insert_index lines k = None
   \<longleftrightarrow> (\<forall>i<length lines. k + i < 20 \<longrightarrow> strip (lines ! i) \<noteq> ''---'')"
proof (induction lines arbitrary: k)
  case Nil
  then show ?case by simp
next
  case (Cons l ls)
  show ?case
  proof (cases "strip l = ''---'' \<and> k < 20")
    case True
    then have "\<not> (\<forall>i<length (l # ls). k + i < 20 \<longrightarrow> strip ((l # ls) ! i) \<noteq> ''---'')"
      by (auto intro: exI[of _ 0])
    then show ?thesis using True by simp
  next
    case False
    have "(\<forall>i<length (l # ls). k + i < 20 \<longrightarrow> strip ((l # ls) ! i) \<noteq> ''---'')
          \<longleftrightarrow> (\<forall>i<length ls. k + 1 + i < 20 \<longrightarrow> strip (ls ! i) \<noteq> ''---'')"
    proof
      assume a: "\<forall>i<length (l # ls). k + i < 20 \<longrightarrow> strip ((l # ls) ! i) \<noteq> ''---''"
      show "\<forall>i<length ls. k + 1 + i < 20 \<longrightarrow> strip (ls ! i) \<noteq> ''---''"
      proof (intro allI impI)
        fix i assume "i < length ls" "k + 1 + i < 20"
        then have "Suc i < length (l # ls)" "k + Suc i < 20" by simp_all
        with a have "strip ((l # ls) ! Suc i) \<noteq> ''---''" by blast
        then show "strip (ls ! i) \<noteq> ''---''" by simp
      qed
    next
      assume a: "\<forall>i<length ls. k + 1 + i < 20 \<longrightarrow> strip (ls ! i) \<noteq> ''---''"
      show "\<forall>i<length (l # ls). k + i < 20 \<longrightarrow> strip ((l # ls) ! i) \<noteq> ''---''"
      proof (intro allI impI)
        fix i assume i: "i < length (l # ls)" "k + i < 20"
        show "strip ((l # ls) ! i) \<noteq> ''---''"
        proof (cases i)
          case 0
          then show ?thesis using False i by auto
        next
          case (Suc i')
          then show ?thesis using a i by simp
        qed
      qed
    qed
    then show ?thesis using False Cons.IH[of "k + 1"] by auto
  qed
qed

text \<open>The text of a list of lines contains what one of the lines contains.\<close>

lemma sublist_join:
  "x \<in> set xs \<Longrightarrow> sublist p x \<Longrightarrow> sublist p (join sep xs)"
proof (induction sep xs rule: join.induct)
  case (1 sep)
  then show ?case by simp
next
  case (2 sep y)
  then show ?case by simp
next
  case (3 sep y z zs)
  show ?case
  proof (cases "x = y")
    case True
    then show ?thesis using 3 by (simp add: sublist_append)
  next
    case False
    then have "sublist p (join sep (z # zs))" using 3 by simp
    then show ?thesis by (simp add: sublist_append)
  qed
qed

lemma in_list_insert: "x \<in> set (list_insert i x xs)"
  by (simp add: list_insert_def)

lemma new_entry_header: "sublist (''## ['' @ v @ '']'') (new_entry v bt d)"
proof -
  have "prefix (''## ['' @ v @ '']'') (new_entry v bt d)"
    by (simp add: new_entry_def)
  then show ?thesis by (rule prefix_imp_sublist)
qed

lemma update_changelog_cases:
  "update_changelog v bt d path fs = fs
   \<or> (\<exists>k content. fs path = Some content
         \<and> update_changelog v bt d path fs
           = fs(path \<mapsto> join [newline] (list_insert k (new_entry v bt d)
                                          (split_on newline content))))"
  by (auto simp: update_changelog_def Let_def split: option.splits)

lemma update_changelog_present:
  "fs path = Some content \<Longrightarrow> contains content (''## ['' @ v @ '']'')
   \<Longrightarrow> update_changelog v bt d path fs = fs"
  by (simp add: update_changelog_def)

lemma update_changelog_twice:
  "update_changelog v bt' d' path (update_changelog v bt d path fs)
   = update_changelog v bt d path fs"
proof -
  from update_changelog_cases[of v bt d path fs]
  consider "update_changelog v bt d path fs = fs"
    | k content where "fs path = Some content"
      "update_changelog v bt d path fs
         = fs(path \<mapsto> join [newline] (list_insert k (new_entry v bt d)
                                        (split_on newline content)))"
    by blast
  then show ?thesis
  proof cases
    case 1
    show ?thesis
    proof (cases "fs path")
      case None
      then show ?thesis using 1 by (simp add: update_changelog_def)
    next
      case (Some content)
      show ?thesis
      proof (cases "contains content (''## ['' @ v @ '']'')")
        case True
        then show ?thesis using 1 Some by (simp add: update_changelog_present)
      next
        case False
        have "find_insert_index (split_on newline content) 0 = None"
        proof (rule ccontr)
          assume "find_insert_index (split_on newline content) 0 \<noteq> None"
          then obtain n where n: "find_insert_index (split_on newline content) 0 = Some n"
            by blast
          have "n \<noteq> 0" using find_insert_index_pos[OF n] .
          then have "update_changelog v bt d path fs path
                     = Some (join [newline] (list_insert n (new_entry v bt d)
                                               (split_on newline content)))"
            using Some False n by (simp add: update_changelog_def)
          then have "content = join [newline] (list_insert n (new_entry v bt d)
                                                 (split_on newline content))"
            using 1 Some by simp
          then have "contains content (''## ['' @ v @ '']'')"
            unfolding contains_def
            using sublist_join[OF in_list_insert new_entry_header] by metis
          then show False using False by simp
        qed
        then show ?thesis using 1 Some False by (simp add: update_changelog_def)
      qed
    qed
  next
    case 2
    let ?c = "join [newline] (list_insert k (new_entry v bt d) (split_on newline content))"
    have "contains ?c (''## ['' @ v @ '']'')"
      unfolding contains_def using sublist_join[OF in_list_insert new_entry_header] .
    then show ?thesis
      using 2(2) update_changelog_present[of "fs(path \<mapsto> ?c)" path ?c v bt' d'] by simp
  qed
qed

section \<open>The changelog: claims C7 and C10\<close>

text \<open>
  C7, as amended. When the changelog exists, does not yet hold the header of the new
  version, line \<open>i\<close> is the first whose stripped text is \<open>---\<close>, with \<open>i\<close> below 20, and a blank
  line follows it, then \<open>update_changelog\<close> puts the new entry after the separator and that
  blank line: the lines up to the separator, the separator, the blank line, the entry, and
  then the lines that followed. When the file is absent nothing is written.
\<close>

theorem update_changelog_inserts:
  "(fs path = Some content \<and> \<not> contains content (''## ['' @ v @ '']'')
    \<and> Suc i < length (split_on newline content) \<and> i < 20
    \<and> strip (split_on newline content ! i) = ''---''
    \<and> (\<forall>j<i. strip (split_on newline content ! j) \<noteq> ''---'')
    \<and> strip (split_on newline content ! Suc i) = []
    \<longrightarrow> update_changelog v bt d path fs
        = fs(path \<mapsto> join [newline]
               (take i (split_on newline content)
                @ [split_on newline content ! i, split_on newline content ! Suc i,
                   new_entry v bt d]
                @ drop (i + 2) (split_on newline content))))
   \<and> (fs path = None \<longrightarrow> update_changelog v bt d path fs = fs)"
proof -
  have A: "update_changelog v bt d path fs
        = fs(path \<mapsto> join [newline]
               (take i (split_on newline content)
                @ [split_on newline content ! i, split_on newline content ! Suc i,
                   new_entry v bt d]
                @ drop (i + 2) (split_on newline content)))"
    if a: "fs path = Some content" "\<not> contains content (''## ['' @ v @ '']'')"
      "Suc i < length (split_on newline content)" "i < 20"
      "strip (split_on newline content ! i) = ''---''"
      "\<forall>j<i. strip (split_on newline content ! j) \<noteq> ''---''"
  proof -
    have i: "i < length (split_on newline content)" using a(3) by simp
    have "find_insert_index (split_on newline content) 0 = Some (0 + i + 2)"
      using a i by (intro find_insert_index_first) simp_all
    then have u: "update_changelog v bt d path fs
        = fs(path \<mapsto> join [newline]
               (take (Suc (Suc i)) (split_on newline content) @ [new_entry v bt d]
                @ drop (i + 2) (split_on newline content)))"
      using a(1,2) by (simp add: update_changelog_def list_insert_def Let_def)
    have "take (Suc (Suc i)) (split_on newline content)
          = take i (split_on newline content)
            @ [split_on newline content ! i, split_on newline content ! Suc i]"
      using a(3) i by (simp add: take_Suc_conv_app_nth)
    then show ?thesis using u by simp
  qed
  have B: "update_changelog v bt d path fs = fs" if "fs path = None"
    using that by (simp add: update_changelog_def)
  show ?thesis
  proof (intro conjI impI)
    assume h: "fs path = Some content \<and> \<not> contains content (''## ['' @ v @ '']'')
      \<and> Suc i < length (split_on newline content) \<and> i < 20
      \<and> strip (split_on newline content ! i) = ''---''
      \<and> (\<forall>j<i. strip (split_on newline content ! j) \<noteq> ''---'')
      \<and> strip (split_on newline content ! Suc i) = []"
    show "update_changelog v bt d path fs
        = fs(path \<mapsto> join [newline]
               (take i (split_on newline content)
                @ [split_on newline content ! i, split_on newline content ! Suc i,
                   new_entry v bt d]
                @ drop (i + 2) (split_on newline content)))"
      by (rule A) (use h in simp_all)
  next
    assume "fs path = None"
    then show "update_changelog v bt d path fs = fs" by (rule B)
  qed
qed

theorem update_changelog_inserts_witness:
  "example_files ''CHANGELOG.md'' = Some example_changelog
   \<and> strip (split_on newline example_changelog ! 1) = ''---''
   \<and> strip (split_on newline example_changelog ! Suc 1) = []
   \<and> take 4 (split_on newline (the (update_changelog ''3.8'' ''minor'' ''2025-01-02''
                 ''CHANGELOG.md'' example_files ''CHANGELOG.md'')))
     = [''# Changelog'', ''---'', [], ''## [3.8] - 2025-01-02'']"
proof -
  have 1: "example_files ''CHANGELOG.md'' = Some example_changelog" by code_simp
  have 2: "\<not> contains example_changelog (''## ['' @ ''3.8'' @ '']'')" by code_simp
  have 3: "Suc 1 < length (split_on newline example_changelog)" by code_simp
  have 4: "strip (split_on newline example_changelog ! 1) = ''---''" by code_simp
  have 5: "\<forall>j<1. strip (split_on newline example_changelog ! j) \<noteq> ''---''"
  proof -
    have "strip (split_on newline example_changelog ! 0) \<noteq> ''---''" by code_simp
    then show ?thesis by simp
  qed
  have 6: "strip (split_on newline example_changelog ! Suc 1) = []" by code_simp
  have "update_changelog ''3.8'' ''minor'' ''2025-01-02'' ''CHANGELOG.md'' example_files
        = example_files(''CHANGELOG.md'' \<mapsto> join [newline]
            (take 1 (split_on newline example_changelog)
             @ [split_on newline example_changelog ! 1,
                split_on newline example_changelog ! Suc 1,
                new_entry ''3.8'' ''minor'' ''2025-01-02'']
             @ drop (1 + 2) (split_on newline example_changelog)))"
    using update_changelog_inserts[of example_files "''CHANGELOG.md''" example_changelog
        "''3.8''" 1 "''minor''" "''2025-01-02''"] 1 2 3 4 5 6 by simp
  then have "the (update_changelog ''3.8'' ''minor'' ''2025-01-02'' ''CHANGELOG.md''
                    example_files ''CHANGELOG.md'')
             = join [newline]
                 (take 1 (split_on newline example_changelog)
                  @ [split_on newline example_changelog ! 1,
                     split_on newline example_changelog ! Suc 1,
                     new_entry ''3.8'' ''minor'' ''2025-01-02'']
                  @ drop (1 + 2) (split_on newline example_changelog))"
    by simp
  moreover have "take 4 (split_on newline (join [newline]
                 (take 1 (split_on newline example_changelog)
                  @ [split_on newline example_changelog ! 1,
                     split_on newline example_changelog ! Suc 1,
                     new_entry ''3.8'' ''minor'' ''2025-01-02'']
                  @ drop (1 + 2) (split_on newline example_changelog))))
        = [''# Changelog'', ''---'', [], ''## [3.8] - 2025-01-02'']"
    by code_simp
  ultimately show ?thesis using 1 4 6 by simp
qed

text \<open>
  C7 as the specification states it fails: in a changelog with the expected header, the line
  right after the separator is still the blank line, and the new entry comes after that
  blank line, not immediately after the separator.
\<close>

theorem update_changelog_inserts_counterexample:
  "example_files ''CHANGELOG.md'' = Some example_changelog
   \<and> take 4 (split_on newline example_changelog)
     = [''# Changelog'', ''---'', [], ''## [3.7] - 2024-01-01'']
   \<and> take 4 (split_on newline (the (update_changelog ''3.8'' ''minor'' ''2025-01-02''
                 ''CHANGELOG.md'' example_files ''CHANGELOG.md'')))
     = [''# Changelog'', ''---'', [], ''## [3.8] - 2025-01-02'']
   \<and> update_changelog ''3.8'' ''minor'' ''2025-01-02'' ''CHANGELOG.md'' example_files
        ''CHANGELOG.md''
     \<noteq> Some (join [newline] (list_insert 2 (new_entry ''3.8'' ''minor'' ''2025-01-02'')
                                (split_on newline example_changelog)))"
  by code_simp

text \<open>
  Where no blank line follows the separator, the entry still goes two lines below it and
  lands between the old header and its body. The comment of the source (\<open>Insert after
  separator and blank line\<close>) does not cover this layout; the property above leaves it out.
\<close>

lemma update_changelog_compact_layout:
  "compact_files ''CHANGELOG.md'' = Some compact_changelog
   \<and> take 4 (split_on newline compact_changelog)
     = [''# Changelog'', ''---'', ''## [3.7] - 2024-01-01'', ''- old'']
   \<and> take 5 (split_on newline (the (update_changelog ''3.8'' ''minor'' ''2025-01-02''
                 ''CHANGELOG.md'' compact_files ''CHANGELOG.md'')))
     = [''# Changelog'', ''---'', ''## [3.7] - 2024-01-01'', ''## [3.8] - 2025-01-02'', []]"
  by code_simp

text \<open>
  C10. A changelog that already holds the header of the version is left as it is; and a
  second \<open>update_changelog\<close> for the same version (whatever the bump type and the date)
  changes nothing after the first.
\<close>

theorem update_changelog_idempotent:
  "(fs path = Some content \<and> contains content (''## ['' @ v @ '']'')
    \<longrightarrow> update_changelog v bt d path fs = fs)
   \<and> update_changelog v bt' d' path (update_changelog v bt d path fs)
     = update_changelog v bt d path fs"
proof (intro conjI impI)
  assume "fs path = Some content \<and> contains content (''## ['' @ v @ '']'')"
  then show "update_changelog v bt d path fs = fs"
    by (elim conjE) (rule update_changelog_present)
next
  show "update_changelog v bt' d' path (update_changelog v bt d path fs)
        = update_changelog v bt d path fs"
    by (rule update_changelog_twice)
qed

theorem update_changelog_idempotent_witness:
  "contains (the (update_changelog ''3.8'' ''minor'' ''2025-01-02'' ''CHANGELOG.md''
                    example_files ''CHANGELOG.md'')) ''## [3.8]''
   \<and> update_changelog ''3.8'' ''minor'' ''2025-01-02'' ''CHANGELOG.md''
        (update_changelog ''3.8'' ''minor'' ''2025-01-02'' ''CHANGELOG.md'' example_files)
     = update_changelog ''3.8'' ''minor'' ''2025-01-02'' ''CHANGELOG.md'' example_files
   \<and> update_changelog ''3.8'' ''minor'' ''2025-01-02'' ''CHANGELOG.md'' example_files
        ''CHANGELOG.md''
     \<noteq> example_files ''CHANGELOG.md''"
proof -
  have 1: "contains (the (update_changelog ''3.8'' ''minor'' ''2025-01-02'' ''CHANGELOG.md''
                            example_files ''CHANGELOG.md'')) ''## [3.8]''"
    by code_simp
  have 2: "update_changelog ''3.8'' ''minor'' ''2025-01-02'' ''CHANGELOG.md'' example_files
             ''CHANGELOG.md''
           \<noteq> example_files ''CHANGELOG.md''"
    by code_simp
  show ?thesis
    using 1 2 update_changelog_idempotent[of example_files "''CHANGELOG.md''" example_changelog
        "''3.8''" "''minor''" "''2025-01-02''" "''minor''" "''2025-01-02''"]
    by blast
qed

section \<open>Lemmas on \<open>main\<close>\<close>

lemma read_current_version_Inl:
  "read_current_version fs p = Inl st \<Longrightarrow> st = SysExit 1"
  by (auto simp: read_current_version_def Let_def split: option.splits if_splits)

lemma read_current_version_Inr:
  "read_current_version fs p = Inr v \<Longrightarrow> re_match False version_pattern v"
  by (auto simp: read_current_version_def Let_def split: option.splits if_splits)

text \<open>
  How \<open>choose_version\<close> can stop the run: the manual version is malformed, there is no
  commit, or \<open>bump_version\<close> raises (the version file holds more digits than the integer
  conversions accept), which nothing catches.
\<close>

lemma choose_version_stop:
  assumes "choose_version a e cur = Inl (st, out)"
  shows "(st = SysExit 1 \<and> out = [] \<and> manual a \<noteq> None \<and> manual a \<noteq> Some []
          \<and> \<not> re_match False version_pattern (strip (the (manual a))))
         \<or> (st = SysExit 0 \<and> out = [cur])
         \<or> (st = Uncaught ValueError \<and> out = [])"
proof -
  have e: "err = ValueError" for err :: error by (cases err) simp
  show ?thesis
    using assms e
    by (auto simp: choose_version_def Let_def split: if_splits sum.splits)
qed

lemma choose_version_manual:
  assumes "choose_version a e cur = Inr (new, bt)" "manual a = Some m" "m \<noteq> []"
  shows "re_match False version_pattern (strip m)"
  using assms by (auto simp: choose_version_def Let_def split: if_splits)

lemma choose_version_bad_manual:
  assumes "manual a = Some m" "m \<noteq> []" "\<not> re_match False version_pattern (strip m)"
  shows "choose_version a e cur = Inl (SysExit 1, [])"
  using assms by (simp add: choose_version_def Let_def)

lemma choose_version_no_commits:
  assumes "manual a = None \<or> manual a = Some []" "type a = Auto"
    "get_git_commits_since_last_tag e = [] \<or> get_git_commits_since_last_tag e = [[]]"
  shows "choose_version a e cur = Inl (SysExit 0, [cur])"
  using assms by (auto simp: choose_version_def Let_def)

lemma main_read_failed:
  assumes "read_current_version fs (version_file a) = Inl st"
  shows "main a e fs = \<lparr>exit_code = 1, stdout = [], files_after = fs\<rparr>"
  using assms read_current_version_Inl[OF assms] by (simp add: main_def)

lemma main_stopped:
  assumes "read_current_version fs (version_file a) = Inr cur"
    "choose_version a e cur = Inl (st, out)"
  shows "main a e fs = \<lparr>exit_code = exit_status st, stdout = out, files_after = fs\<rparr>"
  using assms by (simp add: main_def)

lemma main_chosen:
  assumes "read_current_version fs (version_file a) = Inr cur"
    "choose_version a e cur = Inr (new, bt)"
  shows "main a e fs =
     (if new = cur then \<lparr>exit_code = 0, stdout = [cur], files_after = fs\<rparr>
      else if dry_run a then \<lparr>exit_code = 0, stdout = [new], files_after = fs\<rparr>
      else if \<not> sync_script_exists e
      then \<lparr>exit_code = 0, stdout = [new], files_after = written a e fs new bt\<rparr>
      else if fst (sync_run e (version_file a) (written a e fs new bt))
      then \<lparr>exit_code = 0, stdout = [new],
            files_after = snd (sync_run e (version_file a) (written a e fs new bt))\<rparr>
      else \<lparr>exit_code = 1, stdout = [],
            files_after = snd (sync_run e (version_file a) (written a e fs new bt))\<rparr>)"
  using assms
  by (auto simp: main_def Let_def written_def run_version_sync_def split: prod.splits bool.splits)

text \<open>Every run falls under one of five cases.\<close>

lemma main_cases:
  obtains
    (unreadable) st where "read_current_version fs (version_file a) = Inl st"
      "main a e fs = \<lparr>exit_code = 1, stdout = [], files_after = fs\<rparr>"
  | (bad_manual) cur m where "read_current_version fs (version_file a) = Inr cur"
      "manual a = Some m" "m \<noteq> []" "\<not> re_match False version_pattern (strip m)"
      "main a e fs = \<lparr>exit_code = 1, stdout = [], files_after = fs\<rparr>"
  | (raised) cur where "read_current_version fs (version_file a) = Inr cur"
      "choose_version a e cur = Inl (Uncaught ValueError, [])"
      "main a e fs = \<lparr>exit_code = 1, stdout = [], files_after = fs\<rparr>"
  | (untouched) cur where "read_current_version fs (version_file a) = Inr cur"
      "exit_code (main a e fs) = 0" "files_after (main a e fs) = fs"
  | (written) cur new bt where "read_current_version fs (version_file a) = Inr cur"
      "choose_version a e cur = Inr (new, bt)" "new \<noteq> cur" "\<not> dry_run a"
      "main a e fs =
         (if \<not> sync_script_exists e
          then \<lparr>exit_code = 0, stdout = [new], files_after = written a e fs new bt\<rparr>
          else if fst (sync_run e (version_file a) (written a e fs new bt))
          then \<lparr>exit_code = 0, stdout = [new],
                files_after = snd (sync_run e (version_file a) (written a e fs new bt))\<rparr>
          else \<lparr>exit_code = 1, stdout = [],
                files_after = snd (sync_run e (version_file a) (written a e fs new bt))\<rparr>)"
proof (cases "read_current_version fs (version_file a)")
  case (Inl st)
  then show ?thesis using unreadable main_read_failed by blast
next
  case (Inr cur)
  note cur = this
  show ?thesis
  proof (cases "choose_version a e cur")
    case (Inl so)
    obtain st out where so: "so = (st, out)" by (cases so)
    have c: "choose_version a e cur = Inl (st, out)" using Inl so by simp
    have m: "main a e fs = \<lparr>exit_code = exit_status st, stdout = out, files_after = fs\<rparr>"
      using main_stopped[OF cur c] .
    from choose_version_stop[OF c]
    consider "st = SysExit 1 \<and> out = [] \<and> manual a \<noteq> None \<and> manual a \<noteq> Some []
          \<and> \<not> re_match False version_pattern (strip (the (manual a)))"
      | "st = SysExit 0 \<and> out = [cur]" | "st = Uncaught ValueError \<and> out = []" by blast
    then show ?thesis
    proof cases
      case 1
      then obtain mm where mm: "manual a = Some mm" "mm \<noteq> []" by (cases "manual a") auto
      show ?thesis using bad_manual[OF cur mm] 1 mm m by simp
    next
      case 2
      then show ?thesis using untouched[OF cur] m by simp
    next
      case 3
      then show ?thesis using raised[OF cur] c m by simp
    qed
  next
    case (Inr nb)
    obtain new bt where nb: "nb = (new, bt)" by (cases nb)
    note ch = Inr[unfolded nb]
    note mc = main_chosen[OF cur ch]
    show ?thesis
    proof (cases "new = cur \<or> dry_run a")
      case True
      then show ?thesis using untouched[OF cur] mc by auto
    next
      case False
      then show ?thesis using written[OF cur ch] mc by simp
    qed
  qed
qed

section \<open>The run of \<open>main\<close>: claims C4 and C6\<close>

lemma update_changelog_other:
  "p \<noteq> path \<Longrightarrow> update_changelog v bt d path fs p = fs p"
  using update_changelog_cases[of v bt d path fs] by auto

lemma written_version_file:
  assumes "version_file a \<noteq> changelog_file a"
  shows "written a e fs new bt (version_file a) = Some (new @ [newline])"
  using assms by (simp add: written_def update_changelog_other write_version_def)

text \<open>
  C4, as amended. A run that stops on a malformed version text, in the version file or given
  by hand, exits with status 1 and leaves every file as it was; files are written only after
  both checks have passed. When the sync step fails, the run exits with status 1 after the
  version file and the changelog have been written: they stay written, as the sync step
  left them, and nothing is rolled back. Every run that exits with a status other than 0
  exits with 1, and either it has left the files as they were or it is such a failure of
  the sync step.
\<close>

theorem main_fatal_errors:
  "(\<forall>st. read_current_version fs (version_file a) = Inl st \<longrightarrow>
      exit_code (main a e fs) = 1 \<and> files_after (main a e fs) = fs)
   \<and> (\<forall>m. manual a = Some m \<and> m \<noteq> [] \<and> \<not> re_match False version_pattern (strip m) \<longrightarrow>
      exit_code (main a e fs) = 1 \<and> files_after (main a e fs) = fs)
   \<and> (files_after (main a e fs) \<noteq> fs \<longrightarrow> validated a fs)
   \<and> (exit_code (main a e fs) \<noteq> 0 \<longrightarrow>
      exit_code (main a e fs) = 1
      \<and> (files_after (main a e fs) = fs \<or> sync_failed_after_write a e fs))
   \<and> (\<forall>cur new bt.
        read_current_version fs (version_file a) = Inr cur
        \<and> choose_version a e cur = Inr (new, bt) \<and> new \<noteq> cur \<and> \<not> dry_run a
        \<and> sync_script_exists e
        \<and> \<not> fst (sync_run e (version_file a) (written a e fs new bt))
        \<longrightarrow> exit_code (main a e fs) = 1 \<and> stdout (main a e fs) = []
            \<and> files_after (main a e fs)
                = snd (sync_run e (version_file a) (written a e fs new bt))
            \<and> (version_file a \<noteq> changelog_file a \<longrightarrow>
                 written a e fs new bt (version_file a) = Some (new @ [newline])))"
proof (intro conjI allI impI)
  fix st assume "read_current_version fs (version_file a) = Inl st"
  then have "main a e fs = \<lparr>exit_code = 1, stdout = [], files_after = fs\<rparr>"
    by (rule main_read_failed)
  then show "exit_code (main a e fs) = 1" "files_after (main a e fs) = fs" by simp_all
next
  fix m
  assume h: "manual a = Some m \<and> m \<noteq> [] \<and> \<not> re_match False version_pattern (strip m)"
  have "main a e fs = \<lparr>exit_code = 1, stdout = [], files_after = fs\<rparr>"
  proof (cases "read_current_version fs (version_file a)")
    case (Inl st)
    then show ?thesis by (rule main_read_failed)
  next
    case (Inr cur)
    have "choose_version a e cur = Inl (SysExit 1, [])"
      using h choose_version_bad_manual[of a m e cur] by blast
    then show ?thesis using main_stopped[OF Inr] by simp
  qed
  then show "exit_code (main a e fs) = 1" "files_after (main a e fs) = fs" by simp_all
next
  assume ne: "files_after (main a e fs) \<noteq> fs"
  show "validated a fs"
  proof (cases rule: main_cases[of fs a e])
    case (unreadable st)
    then show ?thesis using ne by simp
  next
    case (bad_manual cur m)
    then show ?thesis using ne by simp
  next
    case (raised cur)
    then show ?thesis using ne by simp
  next
    case (untouched cur)
    then show ?thesis using ne by simp
  next
    case (written cur new bt)
    have "m = [] \<or> re_match False version_pattern (strip m)" if "manual a = Some m" for m
      using choose_version_manual[OF written(2) that] by blast
    then show ?thesis
      using written(1) by (simp add: validated_def split: option.splits)
  qed
next
  assume ne: "exit_code (main a e fs) \<noteq> 0"
  show "exit_code (main a e fs) = 1"
    by (cases rule: main_cases[of fs a e]) (use ne in \<open>auto split: if_splits\<close>)
next
  assume ne: "exit_code (main a e fs) \<noteq> 0"
  show "files_after (main a e fs) = fs \<or> sync_failed_after_write a e fs"
  proof (cases rule: main_cases[of fs a e])
    case (unreadable st)
    then show ?thesis by simp
  next
    case (bad_manual cur m)
    then show ?thesis by simp
  next
    case (raised cur)
    then show ?thesis by simp
  next
    case (untouched cur)
    then show ?thesis by simp
  next
    case (written cur new bt)
    have "sync_script_exists e
        \<and> \<not> fst (sync_run e (version_file a) (written a e fs new bt))
        \<and> files_after (main a e fs)
            = snd (sync_run e (version_file a) (written a e fs new bt))"
      using written(5) ne by (auto split: if_splits)
    then have "sync_failed_after_write a e fs"
      unfolding sync_failed_after_write_def by blast
    then show ?thesis by simp
  qed
next
  fix cur new bt
  assume h: "read_current_version fs (version_file a) = Inr cur
        \<and> choose_version a e cur = Inr (new, bt) \<and> new \<noteq> cur \<and> \<not> dry_run a
        \<and> sync_script_exists e
        \<and> \<not> fst (sync_run e (version_file a) (written a e fs new bt))"
  then have r: "read_current_version fs (version_file a) = Inr cur"
    and c: "choose_version a e cur = Inr (new, bt)" by simp_all
  have m: "main a e fs = \<lparr>exit_code = 1, stdout = [],
            files_after = snd (sync_run e (version_file a) (written a e fs new bt))\<rparr>"
    using main_chosen[OF r c] h by simp
  show "exit_code (main a e fs) = 1" using m by simp
  show "stdout (main a e fs) = []" using m by simp
  show "files_after (main a e fs) = snd (sync_run e (version_file a) (written a e fs new bt))"
    using m by simp
  show "written a e fs new bt (version_file a) = Some (new @ [newline])"
    if "version_file a \<noteq> changelog_file a"
    using that by (rule written_version_file)
qed

theorem main_fatal_errors_witness:
  "exit_code (main example_args failing_sync_env example_files) = 1
   \<and> validated example_args example_files
   \<and> sync_failed_after_write example_args failing_sync_env example_files
   \<and> choose_version example_args failing_sync_env ''3.7'' = Inr (''3.8'', ''minor'')
   \<and> files_after (main example_args failing_sync_env example_files)
       = written example_args failing_sync_env example_files ''3.8'' ''minor''
   \<and> written example_args failing_sync_env example_files ''3.8'' ''minor'' ''VERSION''
       = Some (''3.8'' @ [newline])
   \<and> exit_code (main example_args failing_sync_env compact_files) = 1
   \<and> files_after (main example_args failing_sync_env compact_files) = compact_files"
proof -
  note t1 = main_fatal_errors[of example_files example_args failing_sync_env]
  note t2 = main_fatal_errors[of compact_files example_args failing_sync_env]
  have rd: "read_current_version example_files (version_file example_args) = Inr ''3.7''"
    by code_simp
  have ch: "choose_version example_args failing_sync_env ''3.7'' = Inr (''3.8'', ''minor'')"
    by code_simp
  have a: "\<not> dry_run example_args" "version_file example_args = ''VERSION''"
    "changelog_file example_args = ''CHANGELOG.md''"
    by (simp_all add: example_args_def)
  have s: "sync_script_exists failing_sync_env"
    "\<not> fst (sync_run failing_sync_env (version_file example_args)
             (written example_args failing_sync_env example_files ''3.8'' ''minor''))"
    "snd (sync_run failing_sync_env (version_file example_args)
             (written example_args failing_sync_env example_files ''3.8'' ''minor''))
     = written example_args failing_sync_env example_files ''3.8'' ''minor''"
    by (simp_all add: failing_sync_env_def)
  have ne: "''3.8'' \<noteq> ''3.7''" "version_file example_args \<noteq> changelog_file example_args"
    using a by simp_all
  have five: "exit_code (main example_args failing_sync_env example_files) = 1
      \<and> files_after (main example_args failing_sync_env example_files)
          = snd (sync_run failing_sync_env (version_file example_args)
                  (written example_args failing_sync_env example_files ''3.8'' ''minor''))
      \<and> written example_args failing_sync_env example_files ''3.8'' ''minor''
            (version_file example_args) = Some (''3.8'' @ [newline])"
    using t1 rd ch a(1) s(1,2) ne by blast
  then have x: "exit_code (main example_args failing_sync_env example_files) = 1"
    and f: "files_after (main example_args failing_sync_env example_files)
            = written example_args failing_sync_env example_files ''3.8'' ''minor''"
    and w: "written example_args failing_sync_env example_files ''3.8'' ''minor'' ''VERSION''
            = Some (''3.8'' @ [newline])"
    using s(3) a(2) by simp_all
  have v: "files_after (main example_args failing_sync_env example_files) ''VERSION''
           \<noteq> example_files ''VERSION''"
    unfolding f w by code_simp
  then have nf: "files_after (main example_args failing_sync_env example_files) \<noteq> example_files"
    by auto
  have 1: "validated example_args example_files" using t1 nf by blast
  have 2: "sync_failed_after_write example_args failing_sync_env example_files"
    using t1 nf x by simp
  have r: "read_current_version compact_files (version_file example_args) = Inl (SysExit 1)"
    by code_simp
  have 3: "exit_code (main example_args failing_sync_env compact_files) = 1
           \<and> files_after (main example_args failing_sync_env compact_files) = compact_files"
    using t2 r by blast
  from x 1 2 ch f w 3 show ?thesis by blast
qed

text \<open>
  C4 as the specification states it fails: the sync script fails without touching a file,
  the run exits with status 1, and the version file and the changelog stay rewritten.
\<close>

theorem main_fatal_errors_counterexample:
  "exit_code (main example_args failing_sync_env example_files) = 1
   \<and> example_files ''VERSION'' = Some (''3.7'' @ [newline])
   \<and> files_after (main example_args failing_sync_env example_files) ''VERSION''
     = Some (''3.8'' @ [newline])
   \<and> files_after (main example_args failing_sync_env example_files) ''CHANGELOG.md''
     \<noteq> example_files ''CHANGELOG.md''"
  by code_simp

text \<open>
  C6. \<open>analyze_commits\<close> returns \<open>none\<close> on the empty list and on the list of one empty
  string; and when \<open>main\<close>, in automatic mode and with a valid version file, finds one of these
  two as the commits since the last tag, it prints the current version, exits with status 0
  and leaves the files as they were.
\<close>

theorem no_commits_short_circuit:
  "analyze_commits [] = ''none'' \<and> analyze_commits [[]] = ''none''
   \<and> (read_current_version fs (version_file a) = Inr cur
      \<and> (manual a = None \<or> manual a = Some []) \<and> type a = Auto
      \<and> (get_git_commits_since_last_tag e = [] \<or> get_git_commits_since_last_tag e = [[]])
      \<longrightarrow> main a e fs = \<lparr>exit_code = 0, stdout = [cur], files_after = fs\<rparr>)"
proof (intro conjI impI)
  show "analyze_commits [] = ''none''" by code_simp
  show "analyze_commits [[]] = ''none''" by code_simp
next
  assume h: "read_current_version fs (version_file a) = Inr cur
      \<and> (manual a = None \<or> manual a = Some []) \<and> type a = Auto
      \<and> (get_git_commits_since_last_tag e = [] \<or> get_git_commits_since_last_tag e = [[]])"
  then have "choose_version a e cur = Inl (SysExit 0, [cur])"
    using choose_version_no_commits[of a e cur] by blast
  then show "main a e fs = \<lparr>exit_code = 0, stdout = [cur], files_after = fs\<rparr>"
    using main_stopped[of fs a cur e "SysExit 0" "[cur]"] h by simp
qed

theorem no_commits_short_circuit_witness:
  "get_git_commits_since_last_tag no_commits_env = []
   \<and> main example_args no_commits_env example_files
     = \<lparr>exit_code = 0, stdout = [''3.7''], files_after = example_files\<rparr>
   \<and> get_git_commits_since_last_tag blank_log_env = [[]]
   \<and> main example_args blank_log_env example_files
     = \<lparr>exit_code = 0, stdout = [''3.7''], files_after = example_files\<rparr>"
proof -
  have r: "read_current_version example_files (version_file example_args) = Inr ''3.7''"
    by code_simp
  have m: "manual example_args = None" "type example_args = Auto"
    by (simp_all add: example_args_def)
  have c1: "get_git_commits_since_last_tag no_commits_env = []" by code_simp
  have c2: "get_git_commits_since_last_tag blank_log_env = [[]]" by code_simp
  have 1: "main example_args no_commits_env example_files
           = \<lparr>exit_code = 0, stdout = [''3.7''], files_after = example_files\<rparr>"
    using no_commits_short_circuit[of example_files example_args "''3.7''" no_commits_env]
      r m c1 by simp
  have 2: "main example_args blank_log_env example_files
           = \<lparr>exit_code = 0, stdout = [''3.7''], files_after = example_files\<rparr>"
    using no_commits_short_circuit[of example_files example_args "''3.7''" blank_log_env]
      r m c2 by simp
  from c1 c2 1 2 show ?thesis by blast
qed

section \<open>Lemmas on the pattern of conventional commits\<close>

lemma acceptsI:
  "(\<And>s t. t \<in> set (rems ic n r s) \<longleftrightarrow> (\<exists>p. s = p @ t \<and> L p)) \<Longrightarrow> accepts ic n r L"
  by (simp add: accepts_def)

lemma acceptsD:
  "accepts ic n r L \<Longrightarrow> t \<in> set (rems ic n r s) \<longleftrightarrow> (\<exists>p. s = p @ t \<and> L p)"
  by (simp add: accepts_def)

lemma accepts_one:
  assumes "rems ic n a = one P"
  shows "accepts ic n a (\<lambda>p. \<exists>x. p = [x] \<and> P x)"
  by (rule acceptsI) (auto simp: assms in_one)

lemma accepts_Lit_plain:
  assumes "\<not> is_upper c" "\<not> is_lower c"
  shows "accepts ic n (Lit c) (\<lambda>p. p = [c])"
  by (rule acceptsI) (simp add: in_rems_Lit_plain[OF assms] del: rems.simps)

lemma accepts_Space: "accepts ic n Space (\<lambda>p. \<exists>w. p = [w] \<and> is_space w)"
  by (rule acceptsI) (auto simp: in_one)

lemma accepts_lits_ci: "accepts True n (lits w) (\<lambda>p. ci_eq p w)"
  by (rule acceptsI) (simp add: in_rems_lits_ci)

lemma accepts_Plus_atom:
  assumes "rems ic n a = one P"
  shows "accepts ic n (Plus a) (\<lambda>p. p \<noteq> [] \<and> list_all P p)"
proof (rule acceptsI)
  fix s t
  show "t \<in> set (rems ic n (Plus a) s) \<longleftrightarrow> (\<exists>p. s = p @ t \<and> p \<noteq> [] \<and> list_all P p)"
    unfolding in_plus_atom[OF assms] list_all_iff by blast
qed

lemma accepts_Eps: "accepts ic n Eps (\<lambda>p. p = [])"
  by (rule acceptsI) auto

lemma accepts_Opt:
  assumes "accepts ic n a A"
  shows "accepts ic n (Opt a) (\<lambda>p. A p \<or> p = [])"
  by (rule acceptsI) (auto simp: acceptsD[OF assms])

lemma accepts_Alt:
  assumes "accepts ic n a A" "accepts ic n b B"
  shows "accepts ic n (Alt a b) (\<lambda>p. A p \<or> B p)"
  by (rule acceptsI) (auto simp: acceptsD[OF assms(1)] acceptsD[OF assms(2)])

lemma accepts_Seq:
  assumes "accepts ic n a A" "accepts ic n b B"
  shows "accepts ic n (Seq a b) (\<lambda>p. \<exists>p1 p2. p = p1 @ p2 \<and> A p1 \<and> B p2)"
proof (rule acceptsI)
  fix s t
  have "t \<in> set (rems ic n (Seq a b) s)
        \<longleftrightarrow> (\<exists>m. m \<in> set (rems ic n a s) \<and> t \<in> set (rems ic n b m))"
    by auto
  also have "\<dots> \<longleftrightarrow> (\<exists>m. (\<exists>p1. s = p1 @ m \<and> A p1) \<and> (\<exists>p2. m = p2 @ t \<and> B p2))"
    by (simp add: acceptsD[OF assms(1)] acceptsD[OF assms(2)])
  also have "\<dots> \<longleftrightarrow> (\<exists>p. s = p @ t \<and> (\<exists>p1 p2. p = p1 @ p2 \<and> A p1 \<and> B p2))"
    by (metis append_assoc)
  finally show "t \<in> set (rems ic n (Seq a b) s)
        \<longleftrightarrow> (\<exists>p. s = p @ t \<and> (\<exists>p1 p2. p = p1 @ p2 \<and> A p1 \<and> B p2))" .
qed

lemma accepts_cong: "accepts ic n r L \<Longrightarrow> (\<And>p. L p \<longleftrightarrow> L' p) \<Longrightarrow> accepts ic n r L'"
  by (simp add: accepts_def)

lemma accepts_types: "accepts True n (alts (map lits tys)) (\<lambda>p. list_ex (ci_eq p) tys)"
proof (induction tys)
  case Nil
  show ?case by (rule acceptsI) (simp add: one_def cls_ok_def in_ranges_def split: list.splits)
next
  case (Cons ty tys)
  show ?case
  proof (cases tys)
    case Nil
    then show ?thesis using accepts_lits_ci[of n ty] by simp
  next
    case (Cons ty' tys')
    have "accepts True n (Alt (lits ty) (alts (map lits tys)))
            (\<lambda>p. ci_eq p ty \<or> list_ex (ci_eq p) tys)"
      by (rule accepts_Alt[OF accepts_lits_ci Cons.IH])
    then show ?thesis using Cons by simp
  qed
qed

lemma re_match_Bol:
  assumes "accepts ic (length m) r L"
  shows "re_match ic (Seq Bol r) m \<longleftrightarrow> (\<exists>p t. m = p @ t \<and> L p)"
proof -
  have "re_match ic (Seq Bol r) m \<longleftrightarrow> (\<exists>t. t \<in> set (rems ic (length m) r m))"
    by (simp add: re_match_iff)
  then show ?thesis by (auto simp: acceptsD[OF assms])
qed

lemma accepts_scope:
  "accepts True n (Opt (seqs [Lit CHR ''('', Plus (Cls scope_class), Lit CHR '')''])) scope_part"
proof -
  have "accepts True n (Opt (seqs [Lit CHR ''('', Plus (Cls scope_class), Lit CHR '')'']))
          (\<lambda>p. (\<exists>p1 p2. p = p1 @ p2 \<and> p1 = ''(''
                   \<and> (\<exists>q1 q2. p2 = q1 @ q2
                        \<and> (q1 \<noteq> [] \<and> list_all (cls_ok True scope_class) q1)
                        \<and> (\<exists>r1 r2. q2 = r1 @ r2 \<and> r1 = '')'' \<and> r2 = [])))
                \<or> p = [])"
    unfolding seqs.simps
    by (intro accepts_Opt accepts_Seq accepts_Lit_plain accepts_Plus_atom accepts_Eps rems_Cls
        plain_chars)
  then show ?thesis
  proof (rule accepts_cong)
    fix p
    show "((\<exists>p1 p2. p = p1 @ p2 \<and> p1 = ''(''
                   \<and> (\<exists>q1 q2. p2 = q1 @ q2
                        \<and> (q1 \<noteq> [] \<and> list_all (cls_ok True scope_class) q1)
                        \<and> (\<exists>r1 r2. q2 = r1 @ r2 \<and> r1 = '')'' \<and> r2 = [])))
                \<or> p = []) \<longleftrightarrow> scope_part p"
      unfolding scope_part_def by (auto simp: scope_char_iff list_all_iff)
  qed
qed

lemma accepts_bang: "accepts ic n (Opt (Lit CHR ''!'')) (\<lambda>p. p = ''!'' \<or> p = [])"
  by (intro accepts_Opt accepts_Lit_plain plain_chars)

lemma accepts_conventional:
  "accepts True n
     (seqs [alts (map lits commit_types),
            Opt (seqs [Lit CHR ''('', Plus (Cls scope_class), Lit CHR '')'']),
            Opt (Lit CHR ''!''), Lit CHR '':'', Space, Plus Dot])
     (\<lambda>p. \<exists>ty sc bang w u.
            p = ty @ sc @ bang @ '':'' @ [w] @ u
            \<and> list_ex (ci_eq ty) commit_types \<and> scope_part sc
            \<and> (bang = [] \<or> bang = ''!'')
            \<and> is_space w \<and> u \<noteq> [] \<and> newline \<notin> set u)"
proof -
  have "accepts True n
     (seqs [alts (map lits commit_types),
            Opt (seqs [Lit CHR ''('', Plus (Cls scope_class), Lit CHR '')'']),
            Opt (Lit CHR ''!''), Lit CHR '':'', Space, Plus Dot])
     (\<lambda>p. \<exists>ty p2. p = ty @ p2 \<and> list_ex (ci_eq ty) commit_types
          \<and> (\<exists>sc p3. p2 = sc @ p3 \<and> scope_part sc
          \<and> (\<exists>bang p4. p3 = bang @ p4 \<and> (bang = ''!'' \<or> bang = [])
          \<and> (\<exists>col p5. p4 = col @ p5 \<and> col = '':''
          \<and> (\<exists>ws p6. p5 = ws @ p6 \<and> (\<exists>w. ws = [w] \<and> is_space w)
          \<and> (\<exists>u e. p6 = u @ e \<and> (u \<noteq> [] \<and> list_all (\<lambda>x. x \<noteq> newline) u)
                    \<and> e = []))))))"
    unfolding seqs.simps(2)[of "alts (map lits commit_types)"] seqs.simps(2)[of "Opt (Lit CHR ''!'')"]
      seqs.simps(2)[of "Lit CHR '':''"] seqs.simps(2)[of Space] seqs.simps(2)[of "Plus Dot"]
      seqs.simps(2)[of "Opt (seqs [Lit CHR ''('', Plus (Cls scope_class), Lit CHR '')''])"]
      seqs.simps(1)
    by (intro accepts_Seq accepts_types accepts_scope accepts_bang accepts_Lit_plain
        accepts_Space accepts_Plus_atom accepts_Eps rems_Dot plain_chars)
  then show ?thesis
  proof (rule accepts_cong)
    fix p
    show "(\<exists>ty p2. p = ty @ p2 \<and> list_ex (ci_eq ty) commit_types
          \<and> (\<exists>sc p3. p2 = sc @ p3 \<and> scope_part sc
          \<and> (\<exists>bang p4. p3 = bang @ p4 \<and> (bang = ''!'' \<or> bang = [])
          \<and> (\<exists>col p5. p4 = col @ p5 \<and> col = '':''
          \<and> (\<exists>ws p6. p5 = ws @ p6 \<and> (\<exists>w. ws = [w] \<and> is_space w)
          \<and> (\<exists>u e. p6 = u @ e \<and> (u \<noteq> [] \<and> list_all (\<lambda>x. x \<noteq> newline) u)
                    \<and> e = []))))))
      \<longleftrightarrow> (\<exists>ty sc bang w u.
            p = ty @ sc @ bang @ '':'' @ [w] @ u
            \<and> list_ex (ci_eq ty) commit_types \<and> scope_part sc
            \<and> (bang = [] \<or> bang = ''!'')
            \<and> is_space w \<and> u \<noteq> [] \<and> newline \<notin> set u)"
    proof
      assume "\<exists>ty p2. p = ty @ p2 \<and> list_ex (ci_eq ty) commit_types
          \<and> (\<exists>sc p3. p2 = sc @ p3 \<and> scope_part sc
          \<and> (\<exists>bang p4. p3 = bang @ p4 \<and> (bang = ''!'' \<or> bang = [])
          \<and> (\<exists>col p5. p4 = col @ p5 \<and> col = '':''
          \<and> (\<exists>ws p6. p5 = ws @ p6 \<and> (\<exists>w. ws = [w] \<and> is_space w)
          \<and> (\<exists>u e. p6 = u @ e \<and> (u \<noteq> [] \<and> list_all (\<lambda>x. x \<noteq> newline) u)
                    \<and> e = [])))))"
      then obtain ty p2 sc p3 bang p4 p5 w p6 u where
        e: "p = ty @ p2" "p2 = sc @ p3" "p3 = bang @ p4" "p4 = '':'' @ p5" "p5 = [w] @ p6"
          "p6 = u @ []"
        and c: "list_ex (ci_eq ty) commit_types" "scope_part sc" "bang = ''!'' \<or> bang = []"
          "is_space w" "u \<noteq> []" "list_all (\<lambda>x. x \<noteq> newline) u"
        by blast
      have "p = ty @ sc @ bang @ '':'' @ [w] @ u" using e by simp
      moreover have "newline \<notin> set u" using c(6) by (auto simp: list_all_iff)
      moreover have "bang = [] \<or> bang = ''!''" using c(3) by blast
      ultimately show "\<exists>ty sc bang w u.
            p = ty @ sc @ bang @ '':'' @ [w] @ u
            \<and> list_ex (ci_eq ty) commit_types \<and> scope_part sc
            \<and> (bang = [] \<or> bang = ''!'')
            \<and> is_space w \<and> u \<noteq> [] \<and> newline \<notin> set u"
        using c(1,2,4,5) by blast
    next
      assume "\<exists>ty sc bang w u.
            p = ty @ sc @ bang @ '':'' @ [w] @ u
            \<and> list_ex (ci_eq ty) commit_types \<and> scope_part sc
            \<and> (bang = [] \<or> bang = ''!'')
            \<and> is_space w \<and> u \<noteq> [] \<and> newline \<notin> set u"
      then obtain ty sc bang w u where
        e: "p = ty @ sc @ bang @ '':'' @ [w] @ u"
        and c: "list_ex (ci_eq ty) commit_types" "scope_part sc" "bang = [] \<or> bang = ''!''"
          "is_space w" "u \<noteq> []" "newline \<notin> set u"
        by blast
      have nn: "list_all (\<lambda>x. x \<noteq> newline) u" using c(6) by (auto simp: list_all_iff)
      have 6: "\<exists>u' e. u = u' @ e \<and> (u' \<noteq> [] \<and> list_all (\<lambda>x. x \<noteq> newline) u') \<and> e = []"
      proof (intro exI conjI)
        show "u = u @ []" by simp
        show "u \<noteq> []" by (rule c(5))
        show "list_all (\<lambda>x. x \<noteq> newline) u" by (rule nn)
        show "[] = ([]::string)" by simp
      qed
      have 5: "\<exists>ws p6. [w] @ u = ws @ p6 \<and> (\<exists>w. ws = [w] \<and> is_space w)
          \<and> (\<exists>u e. p6 = u @ e \<and> (u \<noteq> [] \<and> list_all (\<lambda>x. x \<noteq> newline) u) \<and> e = [])"
      proof (intro exI conjI)
        show "[w] @ u = [w] @ u" by simp
        show "[w] = [w]" by simp
        show "is_space w" by (rule c(4))
        show "u = u @ []" by simp
        show "u \<noteq> []" by (rule c(5))
        show "list_all (\<lambda>x. x \<noteq> newline) u" by (rule nn)
        show "[] = ([]::string)" by simp
      qed
      have 4: "\<exists>col p5. '':'' @ [w] @ u = col @ p5 \<and> col = '':''
          \<and> (\<exists>ws p6. p5 = ws @ p6 \<and> (\<exists>w. ws = [w] \<and> is_space w)
          \<and> (\<exists>u e. p6 = u @ e \<and> (u \<noteq> [] \<and> list_all (\<lambda>x. x \<noteq> newline) u)
                    \<and> e = []))"
      proof (intro exI conjI)
        show "'':'' @ [w] @ u = '':'' @ ([w] @ u)" by simp
        show "'':'' = '':''" by simp
        show "[w] @ u = [w] @ u" by simp
        show "[w] = [w]" by simp
        show "is_space w" by (rule c(4))
        show "u = u @ []" by simp
        show "u \<noteq> []" by (rule c(5))
        show "list_all (\<lambda>x. x \<noteq> newline) u" by (rule nn)
        show "[] = ([]::string)" by simp
      qed
      have b: "bang = ''!'' \<or> bang = []" using c(3) by blast
      have 3: "\<exists>bang' p4. bang @ '':'' @ [w] @ u = bang' @ p4 \<and> (bang' = ''!'' \<or> bang' = [])
          \<and> (\<exists>col p5. p4 = col @ p5 \<and> col = '':''
          \<and> (\<exists>ws p6. p5 = ws @ p6 \<and> (\<exists>w. ws = [w] \<and> is_space w)
          \<and> (\<exists>u e. p6 = u @ e \<and> (u \<noteq> [] \<and> list_all (\<lambda>x. x \<noteq> newline) u)
                    \<and> e = [])))"
        apply (rule exI[of _ bang])
        apply (rule exI[of _ "'':'' @ [w] @ u"])
        apply (intro conjI refl b)
        apply (rule 4)
        done
      have 2: "\<exists>sc' p3. sc @ bang @ '':'' @ [w] @ u = sc' @ p3 \<and> scope_part sc'
          \<and> (\<exists>bang p4. p3 = bang @ p4 \<and> (bang = ''!'' \<or> bang = [])
          \<and> (\<exists>col p5. p4 = col @ p5 \<and> col = '':''
          \<and> (\<exists>ws p6. p5 = ws @ p6 \<and> (\<exists>w. ws = [w] \<and> is_space w)
          \<and> (\<exists>u e. p6 = u @ e \<and> (u \<noteq> [] \<and> list_all (\<lambda>x. x \<noteq> newline) u)
                    \<and> e = []))))"
        apply (rule exI[of _ sc])
        apply (rule exI[of _ "bang @ '':'' @ [w] @ u"])
        apply (intro conjI refl c(2))
        apply (rule 3)
        done
      show "\<exists>ty p2. p = ty @ p2 \<and> list_ex (ci_eq ty) commit_types
          \<and> (\<exists>sc p3. p2 = sc @ p3 \<and> scope_part sc
          \<and> (\<exists>bang p4. p3 = bang @ p4 \<and> (bang = ''!'' \<or> bang = [])
          \<and> (\<exists>col p5. p4 = col @ p5 \<and> col = '':''
          \<and> (\<exists>ws p6. p5 = ws @ p6 \<and> (\<exists>w. ws = [w] \<and> is_space w)
          \<and> (\<exists>u e. p6 = u @ e \<and> (u \<noteq> [] \<and> list_all (\<lambda>x. x \<noteq> newline) u)
                    \<and> e = [])))))"
        apply (rule exI[of _ ty])
        apply (rule exI[of _ "sc @ bang @ '':'' @ [w] @ u"])
        apply (intro conjI e c(1))
        apply (rule 2)
        done
    qed
  qed
qed

lemma match_conventional_pattern:
  "re_match True conventional_pattern m \<longleftrightarrow> conventional_form m"
proof -
  have "re_match True conventional_pattern m
        \<longleftrightarrow> (\<exists>p t. m = p @ t
               \<and> (\<exists>ty sc bang w u.
                    p = ty @ sc @ bang @ '':'' @ [w] @ u
                    \<and> list_ex (ci_eq ty) commit_types \<and> scope_part sc
                    \<and> (bang = [] \<or> bang = ''!'')
                    \<and> is_space w \<and> u \<noteq> [] \<and> newline \<notin> set u))"
    unfolding conventional_pattern_def
      seqs.simps(2)[of Bol]
    by (rule re_match_Bol[OF accepts_conventional])
  also have "\<dots> \<longleftrightarrow> conventional_form m"
  proof
    assume "\<exists>p t. m = p @ t
               \<and> (\<exists>ty sc bang w u.
                    p = ty @ sc @ bang @ '':'' @ [w] @ u
                    \<and> list_ex (ci_eq ty) commit_types \<and> scope_part sc
                    \<and> (bang = [] \<or> bang = ''!'')
                    \<and> is_space w \<and> u \<noteq> [] \<and> newline \<notin> set u)"
    then obtain t ty sc bang w u where
      m: "m = (ty @ sc @ bang @ '':'' @ [w] @ u) @ t"
      and c: "list_ex (ci_eq ty) commit_types" "scope_part sc" "bang = [] \<or> bang = ''!''"
        "is_space w" "u \<noteq> []" "newline \<notin> set u"
      by blast
    obtain x u' where u: "u = x # u'" using c(5) by (cases u) auto
    have "m = ty @ sc @ bang @ '':'' @ [w] @ [x] @ (u' @ t)" using m u by simp
    moreover have "x \<noteq> newline" using c(6) u by auto
    ultimately show "conventional_form m"
      unfolding conventional_form_def using c(1-4) by blast
  next
    assume "conventional_form m"
    then obtain ty sc bang w x rest where
      m: "m = ty @ sc @ bang @ '':'' @ [w] @ [x] @ rest"
      and c: "list_ex (ci_eq ty) commit_types" "scope_part sc" "bang = [] \<or> bang = ''!''"
        "is_space w" "x \<noteq> newline"
      unfolding conventional_form_def by blast
    have "m = (ty @ sc @ bang @ '':'' @ [w] @ [x]) @ rest" using m by simp
    moreover have "[x] \<noteq> [] \<and> newline \<notin> set [x]" using c(5) by simp
    ultimately show "\<exists>p t. m = p @ t
               \<and> (\<exists>ty sc bang w u.
                    p = ty @ sc @ bang @ '':'' @ [w] @ u
                    \<and> list_ex (ci_eq ty) commit_types \<and> scope_part sc
                    \<and> (bang = [] \<or> bang = ''!'')
                    \<and> is_space w \<and> u \<noteq> [] \<and> newline \<notin> set u)"
      using c(1-4) by blast
  qed
  finally show ?thesis .
qed

section \<open>The commit message validator: claim C5\<close>

text \<open>
  C5, as amended. \<open>is_conventional_commit\<close> returns \<open>(True, merge)\<close> when the message begins
  with \<open>Merge \<close>; otherwise \<open>(True, automated)\<close> when it begins with \<open>chore: bump version\<close>;
  otherwise \<open>(True, conventional)\<close> if and only if the message is, up to case, one of the ten
  types, an optional scope in parentheses of one or more letters (of either case), digits,
  hyphens and underscores, an optional \<open>!\<close>, a colon, one white-space character (a space, a
  tab, a line break and so on), and then at least one character that is not a line break;
  any other message gives \<open>(False, invalid format)\<close>.
\<close>

theorem is_conventional_commit_cases:
  "is_conventional_commit m =
     (if startswith m ''Merge '' then (True, ''merge'')
      else if startswith m ''chore: bump version'' then (True, ''automated'')
      else if conventional_form m then (True, ''conventional'')
      else (False, ''invalid format''))"
  by (simp add: is_conventional_commit_def match_conventional_pattern)

theorem is_conventional_commit_cases_witness:
  "is_conventional_commit ''feat(ui): add toggle'' = (True, ''conventional'')
   \<and> conventional_form ''feat(ui): add toggle''
   \<and> is_conventional_commit ''update stuff'' = (False, ''invalid format'')
   \<and> \<not> conventional_form ''update stuff''
   \<and> is_conventional_commit ''Merge branch x'' = (True, ''merge'')"
proof -
  have 1: "is_conventional_commit ''feat(ui): add toggle'' = (True, ''conventional'')"
    by code_simp
  have 2: "is_conventional_commit ''update stuff'' = (False, ''invalid format'')"
    by code_simp
  have 3: "is_conventional_commit ''Merge branch x'' = (True, ''merge'')"
    by code_simp
  have a: "conventional_form ''feat(ui): add toggle''"
    using is_conventional_commit_cases[of "''feat(ui): add toggle''"] 1
    by (auto split: if_splits)
  have b: "\<not> conventional_form ''update stuff''"
    using is_conventional_commit_cases[of "''update stuff''"] 2
    by (auto split: if_splits)
  from 1 2 3 a b show ?thesis by blast
qed

text \<open>
  C5 as the specification states it fails in both directions: a tab after the colon is
  accepted though it is not a space, and a line break as the only character after the space
  is rejected though it is a character.
\<close>

theorem is_conventional_commit_cases_counterexample:
  "is_conventional_commit (''feat:'' @ [CHR 0x09] @ ''x'') = (True, ''conventional'')
   \<and> \<not> spec_conventional_form (''feat:'' @ [CHR 0x09] @ ''x'')
   \<and> is_conventional_commit (''feat: '' @ [newline]) = (False, ''invalid format'')
   \<and> spec_conventional_form (''feat: '' @ [newline])"
proof -
  have 1: "is_conventional_commit (''feat:'' @ [CHR 0x09] @ ''x'') = (True, ''conventional'')"
    by code_simp
  have 2: "\<not> spec_conventional_form (''feat:'' @ [CHR 0x09] @ ''x'')"
  proof
    assume "spec_conventional_form (''feat:'' @ [CHR 0x09] @ ''x'')"
    then obtain ty sc bang c rest where
      "''feat:'' @ [CHR 0x09] @ ''x'' = ty @ sc @ bang @ '':'' @ '' '' @ [c] @ rest"
      unfolding spec_conventional_form_def by blast
    then have "set (''feat:'' @ [CHR 0x09] @ ''x'')
               = set (ty @ sc @ bang @ '':'' @ '' '' @ [c] @ rest)"
      by simp
    moreover have "CHR '' '' \<in> set (ty @ sc @ bang @ '':'' @ '' '' @ [c] @ rest)" by simp
    moreover have "CHR '' '' \<notin> set (''feat:'' @ [CHR 0x09] @ ''x'')" by simp
    ultimately show False by blast
  qed
  have 3: "is_conventional_commit (''feat: '' @ [newline]) = (False, ''invalid format'')"
    by code_simp
  have t: "list_ex (ci_eq ''feat'') commit_types" by code_simp
  have s: "scope_part []" by (simp add: scope_part_def)
  have "''feat: '' @ [newline] = ''feat'' @ [] @ [] @ '':'' @ '' '' @ [newline] @ []
        \<and> list_ex (ci_eq ''feat'') commit_types \<and> scope_part []
        \<and> (([]::string) = [] \<or> [] = ''!'')"
    using t s by simp
  then have 4: "spec_conventional_form (''feat: '' @ [newline])"
    unfolding spec_conventional_form_def by blast
  from 1 2 3 4 show ?thesis by blast
qed

end
